theory Spec2Isabelle
  imports Complex_Main "HOL-Library.Word"
begin

section \<open>Data model\<close>

text \<open>
  The canvas module declares \<^verbatim>\<open>type Task = { label: string; subtasks: Task[] }\<close>.
  A task is a JavaScript object, so it has an identity besides its two fields: the
  \<^verbatim>\<open>WeakMap\<close>s \<^verbatim>\<open>leafCounts\<close> and \<^verbatim>\<open>taskStates\<close> are keyed by it and
  \<^verbatim>\<open>child !== task\<close> compares it. The identity is the field \<open>tid\<close> below.
  A string is a sequence of UTF-16 code units.  A \<^verbatim>\<open>number\<close> that counts something is a
  \<open>nat\<close>; a \<^verbatim>\<open>number\<close> that measures something is a \<open>real\<close>: arithmetic is exact,
  the rounding of IEEE doubles is not part of the model.
\<close>

type_synonym ref = nat
type_synonym jsstring = "16 word list"

datatype task = Task (tid: ref) (label: jsstring) (subtasks: "task list")

datatype TaskState = Default | Completed | Cancelled

datatype ActionType = Cancel | Complete | Add | Restore | Delete | Rename

text \<open>All objects of a tree in pre-order, and their identities.\<close>

fun nodes :: "task \<Rightarrow> task list" where
  "nodes (Task i l ts) = Task i l ts # concat (map nodes ts)"

definition ids :: "task \<Rightarrow> ref list" where
  "ids t = map tid (nodes t)"

text \<open>No object occurs twice in the tree (the spec's strict tree: no sharing, no cycles).\<close>

definition strictTree :: "task \<Rightarrow> bool" where
  "strictTree t = distinct (ids t)"

text \<open>The number of leaf nodes of a tree.\<close>

definition isLeaf :: "task \<Rightarrow> bool" where
  "isLeaf t = (subtasks t = [])"

definition leafNodeCount :: "task \<Rightarrow> nat" where
  "leafNodeCount t = length (filter isLeaf (nodes t))"

section \<open>Leaf-count cache\<close>

text \<open>
  \<^verbatim>\<open>let leafCounts = new WeakMap<Task, number>()\<close> is threaded through as a map from
  identities to counts.  \<open>sumLeafCounts\<close> is the
  \<^verbatim>\<open>subtasks.reduce((sum, child) => sum + getLeafCount(child), 0)\<close> of the source, with
  the accumulator written out.
\<close>

type_synonym cache = "ref \<rightharpoonup> nat"

fun getLeafCount :: "task \<Rightarrow> cache \<Rightarrow> nat \<times> cache"
  and sumLeafCounts :: "task list \<Rightarrow> nat \<Rightarrow> cache \<Rightarrow> nat \<times> cache" where
  "getLeafCount (Task i l ts) lc =
     (case lc i of
        Some cached \<Rightarrow> (cached, lc)
      | None \<Rightarrow>
          (case (if length ts \<noteq> 0 then sumLeafCounts ts 0 lc else (1, lc)) of
             (leaves, lc') \<Rightarrow> (leaves, lc'(i \<mapsto> leaves))))"
| "sumLeafCounts [] acc lc = (acc, lc)"
| "sumLeafCounts (child # rest) acc lc =
     (case getLeafCount child lc of
        (n, lc') \<Rightarrow> sumLeafCounts rest (acc + n) lc')"

text \<open>The contract of the spec, in its own words: a second definition to compare with.\<close>

fun leafCount_spec :: "task \<Rightarrow> nat" where
  "leafCount_spec (Task i l ts) =
     (if ts \<noteq> [] then max 1 (sum_list (map leafCount_spec ts)) else 1)"

text \<open>A cache is sound for a tree when every entry it holds for an object of the tree
  is that object's number of leaves.\<close>

definition cacheSound :: "task \<Rightarrow> cache \<Rightarrow> bool" where
  "cacheSound t lc = (\<forall>d \<in> set (nodes t). \<forall>n. lc (tid d) = Some n \<longrightarrow> n = leafNodeCount d)"

section \<open>Task states and the application state\<close>

text \<open>
  \<^verbatim>\<open>const taskStates = new WeakMap<Task, TaskState>()\<close> is a map from identities to
  states; \<open>stateOf\<close> is the recurring \<^verbatim>\<open>taskStates.get(task) ?? "default"\<close>.
\<close>

type_synonym states = "ref \<rightharpoonup> TaskState"

definition stateOf :: "states \<Rightarrow> task \<Rightarrow> TaskState" where
  "stateOf st task = (case st (tid task) of None \<Rightarrow> Default | Some state \<Rightarrow> state)"

text \<open>The two recursive walks; the second function of each pair is the \<^verbatim>\<open>forEach\<close>.\<close>

fun setTaskStateRecursive :: "task \<Rightarrow> TaskState \<Rightarrow> states \<Rightarrow> states"
  and setTaskStateRecursive_forEach :: "task list \<Rightarrow> TaskState \<Rightarrow> states \<Rightarrow> states" where
  "setTaskStateRecursive (Task i l ts) state st =
     setTaskStateRecursive_forEach ts state (st(i \<mapsto> state))"
| "setTaskStateRecursive_forEach [] state st = st"
| "setTaskStateRecursive_forEach (child # rest) state st =
     setTaskStateRecursive_forEach rest state (setTaskStateRecursive child state st)"

fun clearTaskStateRecursive :: "task \<Rightarrow> states \<Rightarrow> states"
  and clearTaskStateRecursive_forEach :: "task list \<Rightarrow> states \<Rightarrow> states" where
  "clearTaskStateRecursive (Task i l ts) st =
     clearTaskStateRecursive_forEach ts (st(i := None))"
| "clearTaskStateRecursive_forEach [] st = st"
| "clearTaskStateRecursive_forEach (child # rest) st =
     clearTaskStateRecursive_forEach rest (clearTaskStateRecursive child st)"

text \<open>
  A hitbox refers to its task and to the task's parent.  A variable that holds a reference
  to a task object is modelled by the object as it is in the tree when the reference is
  taken (hitboxes are rebuilt by every \<^verbatim>\<open>render\<close>, which ends every mutation); the
  identity \<open>tid\<close> addresses the object inside \<open>rootTask\<close>.  The geometry of a hitbox is
  not read by the functions below and is left out.
\<close>

record NodeHitbox =
  hb_task :: task
  hb_parent :: "task option"

text \<open>
  The module's variables that the action and editing code reads or writes.
  \<open>editingInput\<close> is the value of the shared input element, \<open>None\<close> before the element is
  created.  \<open>nextRef\<close> is the allocator: the identity the next \<^verbatim>\<open>{ label: "", subtasks: [] }\<close>
  gets.
\<close>

record app =
  rootTask :: task
  taskStates :: states
  hoveredNode :: "NodeHitbox option"
  hoveredAction :: "ActionType option"
  editingTask :: "task option"
  editingParentForRemoval :: "task option"
  editingInitialLabel :: jsstring
  editingInput :: "jsstring option"
  pendingEditTask :: "task option"
  pendingEditParent :: "task option"
  pendingHoverTask :: "task option"
  nextRef :: ref

text \<open>
  The tree the module starts with, its objects numbered in pre-order; \<open>utf16\<close> gives the
  code units of a string literal of ASCII characters.
\<close>

definition utf16 :: "string \<Rightarrow> jsstring" where
  "utf16 cs = map of_char cs"

definition initialRootTask :: task where
  "initialRootTask =
     Task 0 (utf16 ''Base'')
       [Task 1 (utf16 ''EECS MEng'')
          [Task 2 (utf16 ''NORAM scholarship'')
             [Task 3 (utf16 ''Recommendation letters'')
                [Task 4 (utf16 ''Rec letter 1'') [],
                 Task 5 (utf16 ''Rec letter 2'') [],
                 Task 6 (utf16 ''Rec letter 3'') []],
              Task 7 (utf16 ''Application letter'') []]]]"

text \<open>
  Assignments to a field of the object with identity \<open>r\<close>, seen from the root:
  \<^verbatim>\<open>obj.subtasks = f(obj.subtasks)\<close> and \<^verbatim>\<open>obj.label = v\<close>.
\<close>

fun assignSubtasks :: "ref \<Rightarrow> (task list \<Rightarrow> task list) \<Rightarrow> task \<Rightarrow> task" where
  "assignSubtasks r f (Task i l ts) =
     (if i = r then Task i l (f ts) else Task i l (map (assignSubtasks r f) ts))"

fun assignLabel :: "ref \<Rightarrow> jsstring \<Rightarrow> task \<Rightarrow> task" where
  "assignLabel r v (Task i l ts) =
     (if i = r then Task i v ts else Task i l (map (assignLabel r v) ts))"

text \<open>
  Reading the object graph back from the tree: the object with identity \<open>r\<close> (the first
  in pre-order), and its two fields as the heap holds them, the label and the identities in
  its \<^verbatim>\<open>subtasks\<close> array.
\<close>

fun findTask :: "ref \<Rightarrow> task \<Rightarrow> task option"
  and findTaskIn :: "ref \<Rightarrow> task list \<Rightarrow> task option" where
  "findTask r (Task i l ts) = (if i = r then Some (Task i l ts) else findTaskIn r ts)"
| "findTaskIn r [] = None"
| "findTaskIn r (t # ts) =
     (case findTask r t of Some found \<Rightarrow> Some found | None \<Rightarrow> findTaskIn r ts)"

definition fieldsOf :: "task \<Rightarrow> jsstring \<times> ref list" where
  "fieldsOf t = (label t, map tid (subtasks t))"

definition objectOf :: "task \<Rightarrow> ref \<Rightarrow> (jsstring \<times> ref list) option" where
  "objectOf tree r = map_option fieldsOf (findTask r tree)"

definition getActionsForTask :: "task \<Rightarrow> app \<Rightarrow> ActionType list" where
  "getActionsForTask task s =
     (if tid task = tid (rootTask s) then []
      else let state = stateOf (taskStates s) task in
        if state = Cancelled \<or> state = Completed then [Delete, Restore]
        else [Cancel, Rename, Complete])"

definition deleteTask :: "NodeHitbox \<Rightarrow> app \<Rightarrow> app" where
  "deleteTask node s =
     (case hb_parent node of
        None \<Rightarrow> s
      | Some parent \<Rightarrow>
          s\<lparr>rootTask := assignSubtasks (tid parent)
                          (filter (\<lambda>child. tid child \<noteq> tid (hb_task node))) (rootTask s),
            taskStates := clearTaskStateRecursive (hb_task node) (taskStates s)\<rparr>)"

definition startEditingTask :: "task \<Rightarrow> task option \<Rightarrow> app \<Rightarrow> app" where
  "startEditingTask task parent s =
     s\<lparr>editingTask := Some task,
       editingParentForRemoval := parent,
       editingInitialLabel := label task,
       editingInput := Some (label task)\<rparr>"

text \<open>
  \<open>handleAction\<close> up to its closing \<^verbatim>\<open>render()\<close>.  The capture of display positions
  for the layout animation and the drawing are left out: they read the tree and the state
  map and write neither.
\<close>

definition handleAction :: "ActionType \<Rightarrow> NodeHitbox \<Rightarrow> app \<Rightarrow> app" where
  "handleAction action node s =
     (let task = hb_task node in
      if action = Cancel then
        (if taskStates s (tid task) = Some Cancelled
         then s\<lparr>taskStates := clearTaskStateRecursive task (taskStates s)\<rparr>
         else s\<lparr>taskStates := setTaskStateRecursive task Cancelled (taskStates s)\<rparr>)
      else if action = Complete then
        (if taskStates s (tid task) = Some Completed
         then s\<lparr>taskStates := (taskStates s)(tid task := None)\<rparr>
         else s\<lparr>taskStates := (taskStates s)(tid task \<mapsto> Completed)\<rparr>)
      else if action = Add then
        (let newTask = Task (nextRef s) [] [] in
         s\<lparr>rootTask := assignSubtasks (tid task) (\<lambda>ts. ts @ [newTask]) (rootTask s),
           taskStates := (taskStates s)(tid task := None),
           pendingEditTask := Some newTask,
           pendingEditParent := Some task,
           nextRef := Suc (nextRef s)\<rparr>)
      else if action = Restore then
        s\<lparr>taskStates := clearTaskStateRecursive task (taskStates s)\<rparr>
      else if action = Delete then
        (if tid task = tid (rootTask s) then s
         else
           let parent = hb_parent node;
               s1 = (case hoveredNode s of
                       Some h \<Rightarrow>
                         if tid (hb_task h) = tid task
                         then s\<lparr>hoveredNode := None, hoveredAction := None\<rparr> else s
                     | None \<Rightarrow> s);
               s2 = deleteTask node s1
           in (case parent of
                 Some p \<Rightarrow> s2\<lparr>pendingHoverTask := Some p\<rparr>
               | None \<Rightarrow> s2\<lparr>hoveredNode := None, hoveredAction := None\<rparr>))
      else startEditingTask task (hb_parent node) s)"

section \<open>Label editing\<close>

text \<open>
  \<^verbatim>\<open>String.prototype.trim\<close> is the platform's: it removes the code units that ECMAScript
  calls white space or line terminators from both ends.
\<close>

definition isWhiteSpace :: "16 word \<Rightarrow> bool" where
  "isWhiteSpace c =
     (c \<in> set [0x0009, 0x000A, 0x000B, 0x000C, 0x000D, 0x0020, 0x00A0, 0x1680,
                0x2028, 0x2029, 0x202F, 0x205F, 0x3000, 0xFEFF]
      \<or> (0x2000 \<le> c \<and> c \<le> 0x200A))"

definition trim :: "jsstring \<Rightarrow> jsstring" where
  "trim v = rev (dropWhile isWhiteSpace (rev (dropWhile isWhiteSpace v)))"

text \<open>
  The \<^verbatim>\<open>input\<close> listener of the shared input element, for the new value \<open>v\<close> of the
  element (without its \<^verbatim>\<open>render()\<close>).
\<close>

definition onEditInput :: "jsstring \<Rightarrow> app \<Rightarrow> app" where
  "onEditInput v s =
     (case editingInput s of
        None \<Rightarrow> s
      | Some old \<Rightarrow>
          (case editingTask s of
             None \<Rightarrow> s\<lparr>editingInput := Some v\<rparr>
           | Some task \<Rightarrow>
               s\<lparr>editingInput := Some v, rootTask := assignLabel (tid task) v (rootTask s)\<rparr>))"

definition removeTaskFromParent :: "task \<Rightarrow> task option \<Rightarrow> app \<Rightarrow> app" where
  "removeTaskFromParent task parent s =
     (case parent of
        None \<Rightarrow> s
      | Some p \<Rightarrow>
          s\<lparr>rootTask := assignSubtasks (tid p)
                          (filter (\<lambda>child. tid child \<noteq> tid task)) (rootTask s),
            taskStates := clearTaskStateRecursive task (taskStates s)\<rparr>)"

text \<open>\<open>finishEditingTask\<close> up to its closing \<^verbatim>\<open>render()\<close>.\<close>

definition finishEditingTask :: "bool \<Rightarrow> app \<Rightarrow> app" where
  "finishEditingTask commit s =
     (case (editingTask s, editingInput s) of
        (Some task, Some inputValue) \<Rightarrow>
          let parent = editingParentForRemoval s;
              s1 =
                (if \<not> commit then
                   (if trim (editingInitialLabel s) = [] \<and> parent \<noteq> None
                    then removeTaskFromParent task parent s
                    else s\<lparr>rootTask := assignLabel (tid task) (editingInitialLabel s) (rootTask s)\<rparr>)
                 else
                   let trimmed = trim inputValue in
                   if trimmed = [] then
                     (if parent \<noteq> None
                      then removeTaskFromParent task parent s
                      else s\<lparr>rootTask := assignLabel (tid task) (editingInitialLabel s) (rootTask s)\<rparr>)
                   else s\<lparr>rootTask := assignLabel (tid task) trimmed (rootTask s)\<rparr>)
          in s1\<lparr>editingTask := None, editingParentForRemoval := None, editingInitialLabel := []\<rparr>
      | _ \<Rightarrow> s)"

text \<open>
  The end of \<^verbatim>\<open>render\<close>, after the drawing has rebuilt \<^verbatim>\<open>nodeHitboxes\<close>: a pending
  hover is resolved and the function returns; otherwise a pending edit is started on the
  task that \<open>handleAction\<close> has just added.
\<close>

definition renderPending :: "NodeHitbox list \<Rightarrow> app \<Rightarrow> app" where
  "renderPending nodeHitboxes s =
     (case pendingHoverTask s of
        Some pending \<Rightarrow>
          (case find (\<lambda>n. tid (hb_task n) = tid pending) nodeHitboxes of
             Some nodeHitbox \<Rightarrow>
               s\<lparr>hoveredNode := Some nodeHitbox, hoveredAction := None, pendingHoverTask := None\<rparr>
           | None \<Rightarrow> s\<lparr>hoveredNode := None, hoveredAction := None, pendingHoverTask := None\<rparr>)
      | None \<Rightarrow>
          (case pendingEditTask s of
             Some taskToEdit \<Rightarrow>
               let s1 = (case find (\<lambda>n. tid (hb_task n) = tid taskToEdit) nodeHitboxes of
                           Some nodeHitbox \<Rightarrow> s\<lparr>hoveredNode := Some nodeHitbox, hoveredAction := None\<rparr>
                         | None \<Rightarrow> s)
               in startEditingTask taskToEdit (pendingEditParent s)
                    (s1\<lparr>pendingEditTask := None, pendingEditParent := None\<rparr>)
           | None \<Rightarrow> s))"

text \<open>
  A label is settled when it is empty or holds a character that is not white space.  The
  labels of the tree the module starts with are settled, a new task gets the empty label,
  and \<open>finishEditingTask\<close> assigns either a trimmed input that is not empty or the
  pre-edit label.
\<close>

definition settledLabel :: "jsstring \<Rightarrow> bool" where
  "settledLabel l = (l = [] \<or> trim l \<noteq> [])"

section \<open>Layout\<close>

definition NODE_WIDTH :: real where "NODE_WIDTH = 220"
definition NODE_HEIGHT :: real where "NODE_HEIGHT = 48"
definition LEVEL_GAP_MIN :: real where "LEVEL_GAP_MIN = 280"
definition LEVEL_GAP_MAX :: real where "LEVEL_GAP_MAX = 360"
definition LEVEL_GAP_VIEW_RATIO :: real where "LEVEL_GAP_VIEW_RATIO = 9 / 10"
definition NODE_VERTICAL_MARGIN :: real where "NODE_VERTICAL_MARGIN = 24"
definition NODE_VERTICAL_SPACING :: real where "NODE_VERTICAL_SPACING = 60"

definition clamp :: "real \<Rightarrow> real \<Rightarrow> real \<Rightarrow> real" where
  "clamp v lo hi = min (max v lo) hi"

definition lerp :: "real \<Rightarrow> real \<Rightarrow> real \<Rightarrow> real" where
  "lerp a b t = a + (b - a) * t"

definition computeLayoutHeight :: "task \<Rightarrow> cache \<Rightarrow> real \<times> cache" where
  "computeLayoutHeight task lc =
     (case getLeafCount task lc of
        (n, lc') \<Rightarrow> (real (max n 1) * (NODE_HEIGHT + NODE_VERTICAL_SPACING), lc'))"

text \<open>\<^verbatim>\<open>Math.max(level, ...childDepths)\<close>.\<close>

fun maxDepth :: "task \<Rightarrow> nat \<Rightarrow> nat" where
  "maxDepth (Task i l ts) level =
     fold max (map (\<lambda>child. maxDepth child (level + 1)) ts) level"

definition computeLevelGap :: "nat \<Rightarrow> real \<Rightarrow> real" where
  "computeLevelGap depth viewportWidth =
     (if depth \<le> 0 then LEVEL_GAP_MAX
      else
        let usableWidth = max (viewportWidth * LEVEL_GAP_VIEW_RATIO - NODE_WIDTH) LEVEL_GAP_MIN;
            gap = usableWidth / real (max depth 1)
        in clamp gap LEVEL_GAP_MIN LEVEL_GAP_MAX)"

record Position =
  pos_x :: real
  pos_y :: real

record NodeProgress =
  completed :: nat
  total :: nat

record PendingNode =
  pn_task :: task
  pn_x :: real
  pn_y :: real
  pn_hasChildren :: bool
  pn_parent :: "task option"
  pn_progress :: "NodeProgress option"

text \<open>The module variables that \<open>drawTask\<close> reads.\<close>

record layout_env =
  levelGap :: real
  env_taskStates :: states
  layoutAnimationStartPositions :: "(ref \<rightharpoonup> Position) option"
  layoutAnimationProgress :: real

text \<open>
  The local variables of one iteration of the \<^verbatim>\<open>subtasks.forEach\<close> of \<open>drawTask\<close>,
  for the subtask \<open>sl_task\<close> of the task \<open>sl_parent\<close>.
\<close>

record slot =
  sl_parent :: ref
  sl_task :: ref
  childStart :: real
  childSpan :: real
  childEnd :: real
  padding :: real

text \<open>
  The module variables that \<open>drawTask\<close> writes.  The two logs are not variables of the
  program: \<open>callLog\<close> records the task and the range of every invocation of \<open>drawTask\<close>,
  \<open>slotLog\<close> the local variables of every iteration of its loop, in the order in which
  they happen, so that properties of the recursion can be stated.
\<close>

record render_state =
  leafCounts :: cache
  pendingNodes :: "PendingNode list"
  displayPositions :: "ref \<rightharpoonup> Position"
  callLog :: "(ref \<times> real \<times> real) list"
  slotLog :: "slot list"

definition getAnimatedPosition :: "layout_env \<Rightarrow> task \<Rightarrow> real \<Rightarrow> real \<Rightarrow> Position" where
  "getAnimatedPosition env task targetX targetY =
     (case layoutAnimationStartPositions env of
        None \<Rightarrow> \<lparr>pos_x = targetX, pos_y = targetY\<rparr>
      | Some starts \<Rightarrow>
          (case starts (tid task) of
             None \<Rightarrow> \<lparr>pos_x = targetX, pos_y = targetY\<rparr>
           | Some start \<Rightarrow>
               \<lparr>pos_x = lerp (pos_x start) targetX (layoutAnimationProgress env),
                pos_y = lerp (pos_y start) targetY (layoutAnimationProgress env)\<rparr>))"

text \<open>The \<^verbatim>\<open>progress\<close> that \<open>drawTask\<close> attaches to a pending node.\<close>

definition taskProgress :: "states \<Rightarrow> task \<Rightarrow> NodeProgress option" where
  "taskProgress st task =
     (if length (subtasks task) \<noteq> 0
      then Some \<lparr>completed = length (filter (\<lambda>child. stateOf st child = Completed) (subtasks task)),
                 total = length (subtasks task)\<rparr>
      else None)"

text \<open>The \<^verbatim>\<open>progressRatio\<close> of \<open>drawNode\<close>, \<open>None\<close> for \<^verbatim>\<open>null\<close>.\<close>

definition progressRatio :: "NodeProgress option \<Rightarrow> real option" where
  "progressRatio progress =
     (case progress of
        None \<Rightarrow> None
      | Some p \<Rightarrow>
          if total p > 0 then Some (min (real (completed p) / real (total p)) 1) else None)"

text \<open>The first part of \<open>drawTask\<close>, up to \<^verbatim>\<open>if (!subtasks.length) return\<close>.\<close>

definition drawTask_node ::
  "layout_env \<Rightarrow> task \<Rightarrow> real \<times> real \<Rightarrow> nat \<Rightarrow> real \<Rightarrow> nat \<Rightarrow> task option \<Rightarrow> bool
     \<Rightarrow> render_state \<Rightarrow> render_state" where
  "drawTask_node env task rng level layoutHeightValue taskDepth parent renderNode st =
     (let y = layoutHeightValue * ((fst rng + snd rng) / 2);
          x = (real taskDepth - real level) * levelGap env;
          display = getAnimatedPosition env task x y;
          st1 = (if renderNode
                 then st\<lparr>pendingNodes := pendingNodes st @
                          [\<lparr>pn_task = task, pn_x = pos_x display, pn_y = pos_y display,
                            pn_hasChildren = (length (subtasks task) > 0),
                            pn_parent = parent,
                            pn_progress = taskProgress (env_taskStates env) task\<rparr>]\<rparr>
                 else st)
      in st1\<lparr>displayPositions := (displayPositions st1)(tid task \<mapsto> display),
             callLog := callLog st1 @ [(tid task, fst rng, snd rng)]\<rparr>)"

text \<open>
  The local variables of one iteration, for the subtask whose leaf count is \<open>n\<close>.
  \<^verbatim>\<open>(n / totalLeaves) || (1 / subtasks.length)\<close> takes its second operand when the
  first is 0 or NaN.
\<close>

definition childSlot :: "task \<Rightarrow> task \<Rightarrow> nat \<Rightarrow> nat \<Rightarrow> real \<Rightarrow> real \<Rightarrow> real \<Rightarrow> slot" where
  "childSlot task subtask n totalLeaves spn offset layoutHeightValue =
     (let w = real n / real totalLeaves;
          weight = (if w = 0 then 1 / real (length (subtasks task)) else w);
          cSpan = spn * weight;
          cStart = offset;
          cEnd = cStart + cSpan;
          desiredPaddingInRange = NODE_VERTICAL_MARGIN / layoutHeightValue;
          pad = min (cSpan / 2 - 1 / 10000) desiredPaddingInRange
      in \<lparr>sl_parent = tid task, sl_task = tid subtask,
          childStart = cStart, childSpan = cSpan, childEnd = cEnd, padding = pad\<rparr>)"

text \<open>
  \<open>drawTask\<close>, and \<open>drawSubtasks\<close> for its \<^verbatim>\<open>forEach\<close> with the running \<^verbatim>\<open>offset\<close>.
  The parameter \<^verbatim>\<open>connectChildren\<close> and the connectors are left out: they only draw.
\<close>

fun drawTask ::
  "layout_env \<Rightarrow> task \<Rightarrow> real \<times> real \<Rightarrow> nat \<Rightarrow> real \<Rightarrow> nat \<Rightarrow> task option \<Rightarrow> bool
     \<Rightarrow> render_state \<Rightarrow> render_state"
  and drawSubtasks ::
  "layout_env \<Rightarrow> task \<Rightarrow> task list \<Rightarrow> nat \<Rightarrow> real \<Rightarrow> nat \<Rightarrow> real \<Rightarrow> real
     \<Rightarrow> render_state \<Rightarrow> render_state" where
  "drawTask env (Task i l ts) rng level layoutHeightValue taskDepth parent renderNode st =
     (let st1 = drawTask_node env (Task i l ts) rng level layoutHeightValue taskDepth
                  parent renderNode st
      in if length ts = 0 then st1
         else
           (case sumLeafCounts ts 0 (leafCounts st1) of
              (s, lc) \<Rightarrow>
                let totalLeaves = (if s = 0 then length ts else s);
                    spn = snd rng - fst rng
                in drawSubtasks env (Task i l ts) ts totalLeaves spn level layoutHeightValue
                     (fst rng) (st1\<lparr>leafCounts := lc\<rparr>)))"
| "drawSubtasks env task [] totalLeaves spn level layoutHeightValue offset st = st"
| "drawSubtasks env task (subtask # rest) totalLeaves spn level layoutHeightValue offset st =
     (case getLeafCount subtask (leafCounts st) of
        (n, lc) \<Rightarrow>
          let sl = childSlot task subtask n totalLeaves spn offset layoutHeightValue;
              childDepth = maxDepth subtask (level + 1);
              st1 = drawTask env subtask
                      (childStart sl + padding sl, childEnd sl - padding sl)
                      (level + 1) layoutHeightValue childDepth (Some task) True
                      (st\<lparr>leafCounts := lc, slotLog := slotLog st @ [sl]\<rparr>)
          in drawSubtasks env task rest totalLeaves spn level layoutHeightValue
               (offset + childSpan sl) st1)"

definition drawTree :: "layout_env \<Rightarrow> task \<Rightarrow> real \<Rightarrow> render_state \<Rightarrow> render_state" where
  "drawTree env task layoutHeightValue st =
     drawTask env task (0, 1) 0 layoutHeightValue (maxDepth task 0) None False st"

text \<open>
  The layout part of \<open>render\<close>: a fresh leaf-count cache, the level gap, the layout
  height, empty lists, then \<open>drawTree\<close>.
\<close>

definition renderLayout ::
  "states \<Rightarrow> (ref \<rightharpoonup> Position) option \<Rightarrow> real \<Rightarrow> real \<Rightarrow> task \<Rightarrow> render_state" where
  "renderLayout st starts progress viewportWidth tree =
     (let treeDepth = maxDepth tree 0;
          gap = computeLevelGap treeDepth viewportWidth
      in case computeLayoutHeight tree Map.empty of
           (layoutHeight, lc) \<Rightarrow>
             drawTree
               \<lparr>levelGap = gap, env_taskStates = st,
                layoutAnimationStartPositions = starts, layoutAnimationProgress = progress\<rparr>
               tree layoutHeight
               \<lparr>leafCounts = lc, pendingNodes = [], displayPositions = Map.empty,
                callLog = [], slotLog = []\<rparr>)"

text \<open>
  \<open>drawPendingNodes\<close> turns every pending node into a hitbox (and draws it); only the
  references of the hitbox are kept here.
\<close>

definition drawPendingNodes :: "render_state \<Rightarrow> NodeHitbox list" where
  "drawPendingNodes st =
     map (\<lambda>pn. \<lparr>hb_task = pn_task pn, hb_parent = pn_parent pn\<rparr>) (pendingNodes st)"

section \<open>Viewport\<close>

definition ZOOM_MIN :: real where "ZOOM_MIN = 4 / 10"
definition ZOOM_MAX :: real where "ZOOM_MAX = 25 / 10"
definition ZOOM_SENSITIVITY :: real where "ZOOM_SENSITIVITY = 15 / 10000"
definition KEYBOARD_PAN_SPEED :: real where "KEYBOARD_PAN_SPEED = 800"
definition VIEWPORT_ANIMATION_EPS :: real where "VIEWPORT_ANIMATION_EPS = 1 / 10"
definition PAN_ANIMATION_FACTOR :: real where "PAN_ANIMATION_FACTOR = 15 / 100"
definition ZOOM_ANIMATION_FACTOR :: real where "ZOOM_ANIMATION_FACTOR = 15 / 100"

text \<open>
  The module variables of the viewport controller.  \<open>vp_width\<close> and \<open>vp_height\<close> are
  \<^verbatim>\<open>viewport.width\<close> and \<^verbatim>\<open>viewport.height\<close>; a handle is \<open>True\<close> while an animation
  frame is requested (\<^verbatim>\<open>!== null\<close>).
\<close>

record viewport_state =
  vp_width :: real
  vp_height :: real
  panX :: real
  panY :: real
  zoom :: real
  panTargetX :: real
  panTargetY :: real
  zoomTarget :: real
  viewportAnimationHandle :: bool
  pressedKeys :: "string set"
  keyboardAnimationHandle :: bool
  lastKeyboardAnimationTime :: real

text \<open>The initial values, as the module computes them at load time.\<close>

definition initialViewport :: "real \<Rightarrow> real \<Rightarrow> task \<Rightarrow> viewport_state" where
  "initialViewport width height tree =
     (let initialDepth = maxDepth tree 0;
          gap = computeLevelGap initialDepth width;
          layoutHeight = fst (computeLayoutHeight tree Map.empty);
          x = width / 2 - ((real initialDepth * gap + NODE_WIDTH) / 2);
          y = height / 2 - layoutHeight / 2
      in \<lparr>vp_width = width, vp_height = height,
          panX = x, panY = y, zoom = 1,
          panTargetX = x, panTargetY = y, zoomTarget = 1,
          viewportAnimationHandle = False,
          pressedKeys = {}, keyboardAnimationHandle = False, lastKeyboardAnimationTime = 0\<rparr>)"

definition scheduleViewportAnimation :: "viewport_state \<Rightarrow> viewport_state" where
  "scheduleViewportAnimation v =
     (if viewportAnimationHandle v then v else v\<lparr>viewportAnimationHandle := True\<rparr>)"

text \<open>
  The \<^verbatim>\<open>wheel\<close> listener of \<open>setupZoomHandler\<close>; \<open>canvasX\<close> and \<open>canvasY\<close> are the
  event's position inside the canvas.
\<close>

definition onWheel :: "real \<Rightarrow> real \<Rightarrow> real \<Rightarrow> viewport_state \<Rightarrow> viewport_state" where
  "onWheel canvasX canvasY deltaY v =
     (let zoomDelta = exp (- deltaY * ZOOM_SENSITIVITY);
          newZoom = clamp (zoom v * zoomDelta) ZOOM_MIN ZOOM_MAX
      in if newZoom = zoomTarget v then v
         else
           let worldX = (canvasX - panX v) / zoom v;
               worldY = (canvasY - panY v) / zoom v;
               targetPanX = canvasX - worldX * newZoom;
               targetPanY = canvasY - worldY * newZoom
           in scheduleViewportAnimation
                (v\<lparr>zoomTarget := newZoom, panTargetX := targetPanX, panTargetY := targetPanY\<rparr>))"

definition panViewport :: "real \<Rightarrow> real \<Rightarrow> viewport_state \<Rightarrow> viewport_state" where
  "panViewport dx dy v =
     scheduleViewportAnimation
       (v\<lparr>panTargetX := panTargetX v + dx, panTargetY := panTargetY v + dy\<rparr>)"

definition adjustZoomByKeyboard :: "real \<Rightarrow> viewport_state \<Rightarrow> viewport_state" where
  "adjustZoomByKeyboard factor v =
     (let canvasCenterX = vp_width v / 2;
          canvasCenterY = vp_height v / 2;
          worldX = (canvasCenterX - panX v) / zoom v;
          worldY = (canvasCenterY - panY v) / zoom v;
          newZoom = clamp (zoomTarget v * factor) ZOOM_MIN ZOOM_MAX
      in if newZoom = zoomTarget v then v
         else scheduleViewportAnimation
                (v\<lparr>zoomTarget := newZoom,
                   panTargetX := canvasCenterX - worldX * newZoom,
                   panTargetY := canvasCenterY - worldY * newZoom\<rparr>))"

text \<open>\<open>stepViewportAnimation\<close> without its \<^verbatim>\<open>render()\<close>.\<close>

definition stepViewportAnimation :: "viewport_state \<Rightarrow> viewport_state" where
  "stepViewportAnimation v0 =
     (let v = v0\<lparr>viewportAnimationHandle := False\<rparr>;
          deltaX = panTargetX v - panX v;
          deltaY = panTargetY v - panY v;
          deltaZoom = zoomTarget v - zoom v;
          movingX = (\<bar>deltaX\<bar> > VIEWPORT_ANIMATION_EPS);
          movingY = (\<bar>deltaY\<bar> > VIEWPORT_ANIMATION_EPS);
          movingZoom = (\<bar>deltaZoom\<bar> > VIEWPORT_ANIMATION_EPS);
          v1 = v\<lparr>panX := (if movingX then panX v + deltaX * PAN_ANIMATION_FACTOR else panTargetX v),
                 panY := (if movingY then panY v + deltaY * PAN_ANIMATION_FACTOR else panTargetY v),
                 zoom := (if movingZoom then zoom v + deltaZoom * ZOOM_ANIMATION_FACTOR
                          else zoomTarget v)\<rparr>
      in if movingX \<or> movingY \<or> movingZoom then scheduleViewportAnimation v1 else v1)"

text \<open>The \<^verbatim>\<open>pointermove\<close> listener while dragging.\<close>

definition onDragMove :: "real \<Rightarrow> real \<Rightarrow> real \<Rightarrow> real \<Rightarrow> viewport_state \<Rightarrow> viewport_state" where
  "onDragMove clientX clientY dragStartX dragStartY v =
     v\<lparr>panX := clientX - dragStartX, panY := clientY - dragStartY,
       panTargetX := clientX - dragStartX, panTargetY := clientY - dragStartY,
       zoomTarget := zoom v\<rparr>"

text \<open>
  Continuous panning with the keys w, a, s, d: the part of the \<^verbatim>\<open>keydown\<close> and
  \<^verbatim>\<open>keyup\<close> listeners that maintains \<open>pressedKeys\<close>, and \<open>stepKeyboardAnimation\<close>.
  Of what the listeners read outside the viewport, \<open>editing\<close> is \<^verbatim>\<open>editingTask\<close> being
  set, \<open>modifier\<close> is \<^verbatim>\<open>event.metaKey || event.ctrlKey || event.altKey\<close>, \<open>rootHovered\<close>
  is \<^verbatim>\<open>hoveredNode && hoveredNode.task === rootTask\<close>, \<open>key\<close> is the lower-cased
  \<^verbatim>\<open>event.key\<close> and \<open>now\<close> the value of \<^verbatim>\<open>performance.now()\<close>.  The other
  shortcuts of the \<^verbatim>\<open>keydown\<close> listener do not touch the viewport.
\<close>

definition startKeyboardAnimation :: "real \<Rightarrow> viewport_state \<Rightarrow> viewport_state" where
  "startKeyboardAnimation now v =
     (if keyboardAnimationHandle v then v
      else v\<lparr>lastKeyboardAnimationTime := now, keyboardAnimationHandle := True\<rparr>)"

definition stopKeyboardAnimation :: "viewport_state \<Rightarrow> viewport_state" where
  "stopKeyboardAnimation v = v\<lparr>keyboardAnimationHandle := False\<rparr>"

definition onKeyDown ::
  "bool \<Rightarrow> bool \<Rightarrow> bool \<Rightarrow> string \<Rightarrow> real \<Rightarrow> viewport_state \<Rightarrow> viewport_state" where
  "onKeyDown editing modifier rootHovered key now v =
     (if editing then v
      else if modifier then v
      else if rootHovered then v
      else if (key = ''w'' \<or> key = ''s'' \<or> key = ''a'' \<or> key = ''d'') \<and> key \<notin> pressedKeys v
      then startKeyboardAnimation now (v\<lparr>pressedKeys := insert key (pressedKeys v)\<rparr>)
      else v)"

definition onKeyUp :: "bool \<Rightarrow> string \<Rightarrow> viewport_state \<Rightarrow> viewport_state" where
  "onKeyUp editing key v =
     (if editing then v
      else if key = ''w'' \<or> key = ''s'' \<or> key = ''a'' \<or> key = ''d''
      then
        let v1 = v\<lparr>pressedKeys := pressedKeys v - {key}\<rparr>
        in if pressedKeys v1 = {} then stopKeyboardAnimation v1 else v1
      else v)"

text \<open>The \<^verbatim>\<open>blur\<close> listener of the window.\<close>

definition onWindowBlur :: "viewport_state \<Rightarrow> viewport_state" where
  "onWindowBlur v = stopKeyboardAnimation (v\<lparr>pressedKeys := {}\<rparr>)"

definition stepKeyboardAnimation :: "real \<Rightarrow> viewport_state \<Rightarrow> viewport_state" where
  "stepKeyboardAnimation time v0 =
     (let v = v0\<lparr>keyboardAnimationHandle := False\<rparr>
      in if pressedKeys v = {} then v
         else
           let deltaTime = (time - lastKeyboardAnimationTime v) / 1000;
               v1 = v\<lparr>lastKeyboardAnimationTime := time\<rparr>;
               panDy = (if ''w'' \<in> pressedKeys v then KEYBOARD_PAN_SPEED * deltaTime else 0)
                     - (if ''s'' \<in> pressedKeys v then KEYBOARD_PAN_SPEED * deltaTime else 0);
               panDx = (if ''a'' \<in> pressedKeys v then KEYBOARD_PAN_SPEED * deltaTime else 0)
                     - (if ''d'' \<in> pressedKeys v then KEYBOARD_PAN_SPEED * deltaTime else 0);
               v2 = (if panDx \<noteq> 0 \<or> panDy \<noteq> 0
                     then scheduleViewportAnimation
                            (v1\<lparr>panTargetX := panTargetX v1 + panDx,
                                 panTargetY := panTargetY v1 + panDy\<rparr>)
                     else v1)
           in v2\<lparr>keyboardAnimationHandle := True\<rparr>)"

text \<open>The events that reach the viewport controller, and what each does to its state.\<close>

datatype viewport_event =
    Wheel real real real
  | KeyboardZoom real
  | PanBy real real
  | AnimationFrame
  | DragMove real real real real
  | KeyDown bool bool bool string real
  | KeyUp bool string
  | WindowBlur
  | KeyboardFrame real
  | Resize real real

fun viewportStep :: "viewport_event \<Rightarrow> viewport_state \<Rightarrow> viewport_state" where
  "viewportStep (Wheel canvasX canvasY deltaY) v = onWheel canvasX canvasY deltaY v"
| "viewportStep (KeyboardZoom factor) v = adjustZoomByKeyboard factor v"
| "viewportStep (PanBy dx dy) v = panViewport dx dy v"
| "viewportStep AnimationFrame v = stepViewportAnimation v"
| "viewportStep (DragMove clientX clientY dragStartX dragStartY) v =
     onDragMove clientX clientY dragStartX dragStartY v"
| "viewportStep (KeyDown editing modifier rootHovered key now) v =
     onKeyDown editing modifier rootHovered key now v"
| "viewportStep (KeyUp editing key) v = onKeyUp editing key v"
| "viewportStep WindowBlur v = onWindowBlur v"
| "viewportStep (KeyboardFrame time) v = stepKeyboardAnimation time v"
| "viewportStep (Resize width height) v = v\<lparr>vp_width := width, vp_height := height\<rparr>"

text \<open>The invariant of the spec's data model.\<close>

definition zoomInRange :: "viewport_state \<Rightarrow> bool" where
  "zoomInRange v =
     (ZOOM_MIN \<le> zoom v \<and> zoom v \<le> ZOOM_MAX \<and> ZOOM_MIN \<le> zoomTarget v \<and> zoomTarget v \<le> ZOOM_MAX)"

section \<open>Sample states\<close>

text \<open>
  A root with a branch (objects 1, 2, 3) and two leaves (4 and 5), nothing hovered or
  edited, and the hitboxes of the branch and of the first leaf.
\<close>

definition sampleRoot :: task where
  "sampleRoot = Task 0 [] [Task 1 [] [Task 2 [] [], Task 3 [] []], Task 4 [] [], Task 5 [] []]"

definition sampleApp :: app where
  "sampleApp =
     \<lparr>rootTask = sampleRoot, taskStates = Map.empty,
      hoveredNode = None, hoveredAction = None,
      editingTask = None, editingParentForRemoval = None,
      editingInitialLabel = [], editingInput = None,
      pendingEditTask = None, pendingEditParent = None, pendingHoverTask = None,
      nextRef = 6\<rparr>"

definition branchNode :: NodeHitbox where
  "branchNode = \<lparr>hb_task = Task 1 [] [Task 2 [] [], Task 3 [] []], hb_parent = Some sampleRoot\<rparr>"

definition leafNode :: NodeHitbox where
  "leafNode = \<lparr>hb_task = Task 4 [] [], hb_parent = Some sampleRoot\<rparr>"

text \<open>A single chain of six tasks, the narrowest tree there is.\<close>

definition chain :: task where
  "chain = Task 0 [] [Task 1 [] [Task 2 [] [Task 3 [] [Task 4 [] [Task 5 [] []]]]]]"



text \<open>A parent with four subtasks under the root, and the hitboxes of two of them.\<close>

definition fourParent :: task where
  "fourParent = Task 10 [] [Task 11 [] [], Task 12 [] [], Task 13 [] [], Task 14 [] []]"

definition fourApp :: app where
  "fourApp = sampleApp\<lparr>rootTask := Task 0 [] [fourParent]\<rparr>"

definition firstOfFour :: NodeHitbox where
  "firstOfFour = \<lparr>hb_task = Task 11 [] [], hb_parent = Some fourParent\<rparr>"

definition thirdOfFour :: NodeHitbox where
  "thirdOfFour = \<lparr>hb_task = Task 13 [] [], hb_parent = Some fourParent\<rparr>"

text \<open>
  Editing in a tree whose tasks 1 and 2 have the labels \<open>a\<close> and \<open>b\<close> (0x20 is the
  space, 0x09 the tab, 0x61, 0x62 and 0x78 the letters a, b and x): task 1 is being renamed
  and the input holds \<open>" x "\<close>; task 2 is being renamed and the input holds a space and a
  tab; task 2 is being renamed and the input holds \<open>x\<close>.
\<close>

definition editRoot :: task where
  "editRoot = Task 0 [] [Task 1 [0x61] [], Task 2 [0x62] []]"

definition editApp :: app where
  "editApp = sampleApp\<lparr>rootTask := editRoot\<rparr>"

definition paddedEdit :: app where
  "paddedEdit =
     onEditInput [0x20, 0x78, 0x20] (startEditingTask (Task 1 [0x61] []) (Some editRoot) editApp)"

definition blankInputEdit :: app where
  "blankInputEdit =
     onEditInput [0x20, 0x09] (startEditingTask (Task 2 [0x62] []) (Some editRoot) editApp)"

definition typedEdit :: app where
  "typedEdit = onEditInput [0x78] (startEditingTask (Task 2 [0x62] []) (Some editRoot) editApp)"

text \<open>
  The action add on the leaf 4 of the sample tree, the render that follows it, which
  starts the edit of the new task 6, and a space typed into the input.
\<close>

definition addedApp :: app where
  "addedApp = handleAction Add leafNode sampleApp"

definition addedEdit :: app where
  "addedEdit =
     onEditInput [0x20]
       (renderPending
          (drawPendingNodes (renderLayout (taskStates addedApp) None 1 1000 (rootTask addedApp)))
          addedApp)"

text \<open>
  A viewport at rest after a drag to the origin, and the same viewport an eighth of a
  second into panning with the key a held down.
\<close>

definition steady :: viewport_state where
  "steady = fold viewportStep [DragMove 0 20 0 0] (initialViewport 1000 800 sampleRoot)"

definition midPan :: viewport_state where
  "midPan = fold viewportStep
              [DragMove 0 0 0 0, KeyDown False False False ''a'' 0, KeyboardFrame 125]
              (initialViewport 1000 800 sampleRoot)"

section \<open>Predicates of the proofs\<close>

text \<open>Every pending node carries the progress of its task.\<close>

definition progressOk :: "layout_env \<Rightarrow> render_state \<Rightarrow> bool" where
  "progressOk env st =
     (\<forall>pn \<in> set (pendingNodes st). pn_progress pn = taskProgress (env_taskStates env) (pn_task pn))"

text \<open>Every pending node has a parent in the tree and is one of that parent's subtasks.\<close>

definition pendingLive :: "task \<Rightarrow> render_state \<Rightarrow> bool" where
  "pendingLive tree st =
     (\<forall>pn \<in> set (pendingNodes st).
        \<exists>p. pn_parent pn = Some p \<and> p \<in> set (nodes tree) \<and> pn_task pn \<in> set (subtasks p))"

text \<open>What holds of every logged iteration and of every logged invocation.\<close>

definition slotOk :: "real \<Rightarrow> slot \<Rightarrow> bool" where
  "slotOk h sl =
     (padding sl = min (childSpan sl / 2 - 1 / 10000) (NODE_VERTICAL_MARGIN / h)
      \<and> padding sl \<le> childSpan sl / 2 - 1 / 10000
      \<and> 0 < (childEnd sl - padding sl) - (childStart sl + padding sl))"

definition logsOk :: "real \<Rightarrow> render_state \<Rightarrow> bool" where
  "logsOk h st =
     ((\<forall>sl \<in> set (slotLog st). slotOk h sl) \<and> (\<forall>(i, a, b) \<in> set (callLog st). a < b))"

text \<open>The iterations of one loop, computed from the true leaf counts.\<close>

fun loopSlots :: "task \<Rightarrow> task list \<Rightarrow> nat \<Rightarrow> real \<Rightarrow> real \<Rightarrow> real \<Rightarrow> slot list" where
  "loopSlots task [] totalLeaves spn offset h = []"
| "loopSlots task (c # cs) totalLeaves spn offset h =
     childSlot task c (leafNodeCount c) totalLeaves spn offset h
       # loopSlots task cs totalLeaves spn
           (offset + childSpan (childSlot task c (leafNodeCount c) totalLeaves spn offset h)) h"

section \<open>Verification\<close>

subsection \<open>Trees and identities\<close>

lemma ids_Task: "ids (Task i l ts) = i # concat (map ids ts)"
  unfolding ids_def by (simp add: map_concat comp_def)

lemma tid_in_ids: "tid t \<in> set (ids t)"
  by (cases t) (simp add: ids_Task)

lemma node_id_in_ids: "d \<in> set (nodes t) \<Longrightarrow> tid d \<in> set (ids t)"
  by (simp add: ids_def)

lemma self_in_nodes: "t \<in> set (nodes t)"
  by (cases t) simp

lemma nodes_trans: "x \<in> set (nodes t) \<Longrightarrow> set (nodes x) \<subseteq> set (nodes t)"
proof (induction t)
  case (Task i l ts)
  show ?case
  proof (cases "x = Task i l ts")
    case True
    then show ?thesis by simp
  next
    case False
    with Task.prems obtain c where c: "c \<in> set ts" and x: "x \<in> set (nodes c)" by auto
    from Task.IH [OF c x] c show ?thesis by auto
  qed
qed

lemma child_in_nodes: "c \<in> set (subtasks p) \<Longrightarrow> c \<in> set (nodes p)"
  using self_in_nodes [of c] by (cases p) auto

lemma strictTree_inj:
  "strictTree t \<Longrightarrow> x \<in> set (nodes t) \<Longrightarrow> y \<in> set (nodes t) \<Longrightarrow> tid x = tid y \<Longrightarrow> x = y"
  by (simp add: strictTree_def ids_def distinct_map inj_on_def)

lemma distinct_child_ids:
  "distinct (concat (map ids ts)) \<Longrightarrow> distinct (map tid ts)"
proof (induction ts)
  case Nil
  show ?case by simp
next
  case (Cons a ts)
  have "tid a \<notin> tid ` set ts"
  proof
    assume "tid a \<in> tid ` set ts"
    then obtain b where b: "b \<in> set ts" and eq: "tid a = tid b" by auto
    have "tid b \<in> set (ids b)" by (rule tid_in_ids)
    with b eq have "tid a \<in> set (concat (map ids ts))" by auto
    moreover have "tid a \<in> set (ids a)" by (rule tid_in_ids)
    ultimately show False using Cons.prems by auto
  qed
  with Cons show ?case by simp
qed

lemma strictTree_subtree: "strictTree t \<Longrightarrow> x \<in> set (nodes t) \<Longrightarrow> strictTree x"
proof (induction t)
  case (Task i l ts)
  show ?case
  proof (cases "x = Task i l ts")
    case True
    with Task.prems show ?thesis by simp
  next
    case False
    with Task.prems obtain c where c: "c \<in> set ts" and x: "x \<in> set (nodes c)" by auto
    from Task.prems(1) have "distinct (concat (map ids ts))" by (simp add: strictTree_def ids_Task)
    with c have "strictTree c" unfolding strictTree_def by (induction ts) auto
    from Task.IH [OF c this x] show ?thesis .
  qed
qed

subsection \<open>Leaf counts\<close>

lemma leaves_concat:
  "length (filter isLeaf (concat (map nodes ts))) = sum_list (map leafNodeCount ts)"
  by (induction ts) (simp_all add: leafNodeCount_def)

lemma leafNodeCount_Task:
  "leafNodeCount (Task i l ts) = (if ts = [] then 1 else sum_list (map leafNodeCount ts))"
  using leaves_concat [of ts] by (simp add: leafNodeCount_def isLeaf_def)

lemma leafNodeCount_pos: "0 < leafNodeCount t"
proof (induction t)
  case (Task i l ts)
  show ?case
  proof (cases ts)
    case Nil
    then show ?thesis by (simp add: leafNodeCount_Task)
  next
    case (Cons c cs)
    with Task have "0 < leafNodeCount c" by simp
    with Cons show ?thesis by (simp add: leafNodeCount_Task)
  qed
qed

lemma leafCount_spec_eq: "leafCount_spec t = leafNodeCount t"
proof (induction t)
  case (Task i l ts)
  then have eq: "map leafCount_spec ts = map leafNodeCount ts" by simp
  show ?case
  proof (cases "ts = []")
    case True
    then show ?thesis by (simp add: leafNodeCount_Task)
  next
    case False
    have "0 < leafNodeCount (Task i l ts)" by (rule leafNodeCount_pos)
    then have pos: "0 < sum_list (map leafNodeCount ts)" using False by (simp add: leafNodeCount_Task)
    have "sum_list (map leafCount_spec ts) = sum_list (map leafNodeCount ts)"
      using eq by (rule arg_cong)
    with pos False show ?thesis by (simp add: leafNodeCount_Task max_def)
  qed
qed

lemma cacheSound_cong:
  "cacheSound t lc \<Longrightarrow> \<forall>j \<in> set (ids t). lc' j = lc j \<Longrightarrow> cacheSound t lc'"
  by (simp add: cacheSound_def ids_def)

lemma cacheSound_child:
  "cacheSound (Task i l ts) lc \<Longrightarrow> c \<in> set ts \<Longrightarrow> cacheSound c lc"
  by (auto simp: cacheSound_def)

lemma cacheSound_Task:
  assumes "\<forall>c \<in> set ts. cacheSound c lc" and "i \<notin> set (concat (map ids ts))"
  shows "cacheSound (Task i l ts) (lc(i \<mapsto> leafNodeCount (Task i l ts)))"
  using assms by (auto simp: cacheSound_def ids_def)



lemma getLeafCount_sound:
  "strictTree t \<Longrightarrow> cacheSound t lc \<Longrightarrow>
     fst (getLeafCount t lc) = leafNodeCount t \<and>
     cacheSound t (snd (getLeafCount t lc)) \<and>
     (\<forall>j. j \<notin> set (ids t) \<longrightarrow> snd (getLeafCount t lc) j = lc j)"
  "distinct (concat (map ids ts)) \<Longrightarrow> \<forall>c \<in> set ts. cacheSound c lc \<Longrightarrow>
     fst (sumLeafCounts ts acc lc) = acc + sum_list (map leafNodeCount ts) \<and>
     (\<forall>c \<in> set ts. cacheSound c (snd (sumLeafCounts ts acc lc))) \<and>
     (\<forall>j. j \<notin> set (concat (map ids ts)) \<longrightarrow> snd (sumLeafCounts ts acc lc) j = lc j)"
proof (induction t lc and ts acc lc rule: getLeafCount_sumLeafCounts.induct)
  case (1 i l ts lc)
  show ?case
  proof (cases "lc i")
    case (Some cached)
    with "1.prems" have "cached = leafNodeCount (Task i l ts)"
      by (auto simp: cacheSound_def)
    with Some "1.prems" show ?thesis by simp
  next
    case None
    show ?thesis
    proof (cases "ts = []")
      case True
      have "cacheSound (Task i l []) (lc(i \<mapsto> 1))"
        using cacheSound_Task [of "[]" lc i l] by (simp add: leafNodeCount_Task)
      moreover have "getLeafCount (Task i l ts) lc = (1, lc(i \<mapsto> 1))"
        using None True by simp
      ultimately show ?thesis
        using True by (simp add: leafNodeCount_Task ids_Task del: fun_upd_apply) simp
    next
      case False
      from "1.prems" have d: "distinct (concat (map ids ts))" and fresh: "i \<notin> set (concat (map ids ts))"
        by (simp_all add: strictTree_def ids_Task)
      from "1.prems" have snd0: "\<forall>c \<in> set ts. cacheSound c lc"
        using cacheSound_child by blast
      from False have len: "length ts \<noteq> 0" by simp
      note IH = "1.IH" [OF None len d snd0]
      obtain s lc' where run: "sumLeafCounts ts 0 lc = (s, lc')" by (cases "sumLeafCounts ts 0 lc")
      with IH have s: "s = sum_list (map leafNodeCount ts)"
        and snd': "\<forall>c \<in> set ts. cacheSound c lc'"
        and frame: "\<forall>j. j \<notin> set (concat (map ids ts)) \<longrightarrow> lc' j = lc j" by simp_all
      from s False have s': "s = leafNodeCount (Task i l ts)" by (simp add: leafNodeCount_Task)
      have res: "getLeafCount (Task i l ts) lc = (s, lc'(i \<mapsto> s))"
        using None False run by simp
      have c1: "cacheSound (Task i l ts) (lc'(i \<mapsto> s))"
        using cacheSound_Task [OF snd' fresh, of l] s' by simp
      have c2: "\<forall>j. j \<notin> set (ids (Task i l ts)) \<longrightarrow> (lc'(i \<mapsto> s)) j = lc j"
        using frame by (simp add: ids_Task)
      show ?thesis
        unfolding res fst_conv snd_conv using s' c1 c2 by blast
    qed
  qed
next
  case (2 acc lc)
  show ?case by simp
next
  case (3 child rest acc lc)
  from "3.prems" have dc: "strictTree child" and dr: "distinct (concat (map ids rest))"
    and disj: "set (ids child) \<inter> set (concat (map ids rest)) = {}"
    by (simp_all add: strictTree_def)
  from "3.prems" have sc: "cacheSound child lc" and sr: "\<forall>c \<in> set rest. cacheSound c lc" by simp_all
  obtain n lc1 where run1: "getLeafCount child lc = (n, lc1)" by (cases "getLeafCount child lc")
  from "3.IH"(1) [OF dc sc] run1 have n: "n = leafNodeCount child" and sc1: "cacheSound child lc1"
    and fr1: "\<forall>j. j \<notin> set (ids child) \<longrightarrow> lc1 j = lc j" by simp_all
  have sr1: "\<forall>c \<in> set rest. cacheSound c lc1"
  proof
    fix c assume c: "c \<in> set rest"
    with disj have "\<forall>j \<in> set (ids c). j \<notin> set (ids child)" by auto
    with fr1 have "\<forall>j \<in> set (ids c). lc1 j = lc j" by simp
    with sr c show "cacheSound c lc1" using cacheSound_cong by blast
  qed
  note IH2 = "3.IH"(2) [OF run1 [symmetric] dr sr1, of ]
  obtain s lc2 where run2: "sumLeafCounts rest (acc + n) lc1 = (s, lc2)"
    by (cases "sumLeafCounts rest (acc + n) lc1")
  with IH2 have s: "s = acc + n + sum_list (map leafNodeCount rest)"
    and sr2: "\<forall>c \<in> set rest. cacheSound c lc2"
    and fr2: "\<forall>j. j \<notin> set (concat (map ids rest)) \<longrightarrow> lc2 j = lc1 j" by simp_all
  from disj fr2 have "\<forall>j \<in> set (ids child). lc2 j = lc1 j" by blast
  with sc1 have sc2: "cacheSound child lc2" using cacheSound_cong by blast
  have res: "sumLeafCounts (child # rest) acc lc = (s, lc2)"
    using run1 run2 by simp
  show ?case
    unfolding res using s n sc2 sr2 fr1 fr2 by simp
qed

text \<open>
  Claim C1.  Within one render pass (the tree is a strict tree and every entry already in
  the cache is right, as it is for the empty cache \<^verbatim>\<open>render\<close> starts with),
  \<open>getLeafCount\<close> returns 1 for a task without subtasks and otherwise the sum of
  \<open>getLeafCount\<close> over its subtasks, which is also the maximum of 1 and that sum; the
  result is the number of leaf nodes of the tree, it is the value of the spec's contract,
  it is at least 1, and the cache stays right.
\<close>

theorem getLeafCount_counts_leaves:
  assumes tree: "strictTree t" and sound: "cacheSound t lc"
  shows "fst (getLeafCount t lc) =
           (if subtasks t = [] then 1
            else sum_list (map (\<lambda>c. fst (getLeafCount c (snd (getLeafCount t lc)))) (subtasks t)))
       \<and> fst (getLeafCount t lc) =
           (if subtasks t = [] then 1
            else max 1 (sum_list (map (\<lambda>c. fst (getLeafCount c (snd (getLeafCount t lc)))) (subtasks t))))
       \<and> fst (getLeafCount t lc) = leafCount_spec t
       \<and> fst (getLeafCount t lc) = leafNodeCount t
       \<and> 1 \<le> fst (getLeafCount t lc)
       \<and> cacheSound t (snd (getLeafCount t lc))"
proof -
  let ?lc' = "snd (getLeafCount t lc)"
  define S where "S = sum_list (map (\<lambda>c. fst (getLeafCount c ?lc')) (subtasks t))"
  from getLeafCount_sound(1) [OF tree sound]
  have res: "fst (getLeafCount t lc) = leafNodeCount t" and sound': "cacheSound t ?lc'"
    by simp_all
  have child: "fst (getLeafCount c ?lc') = leafNodeCount c" if c: "c \<in> set (subtasks t)" for c
  proof -
    from sound' c have "cacheSound c ?lc'"
      by (cases t) (auto simp: cacheSound_def)
    moreover from tree c have "strictTree c"
      by (cases t) (auto simp: strictTree_def ids_Task dest: split_list)
    ultimately show ?thesis using getLeafCount_sound(1) by blast
  qed
  then have "map (\<lambda>c. fst (getLeafCount c ?lc')) (subtasks t) = map leafNodeCount (subtasks t)"
    by simp
  then have S: "S = sum_list (map leafNodeCount (subtasks t))"
    unfolding S_def by (rule arg_cong)
  have pos: "0 < leafNodeCount t" by (rule leafNodeCount_pos)
  have shape: "leafNodeCount t = (if subtasks t = [] then 1 else S)"
    unfolding S by (cases t) (simp add: leafNodeCount_Task)
  have c1: "fst (getLeafCount t lc) = (if subtasks t = [] then 1 else S)"
    unfolding res by (rule shape)
  have c2: "fst (getLeafCount t lc) = (if subtasks t = [] then 1 else max 1 S)"
    unfolding res using shape pos by (auto simp: max_def split: if_splits)
  have c3: "fst (getLeafCount t lc) = leafCount_spec t"
    unfolding res by (rule leafCount_spec_eq [symmetric])
  have c5: "1 \<le> fst (getLeafCount t lc)" unfolding res using pos by simp
  from c1 c2 c3 res c5 sound' show ?thesis unfolding S_def by blast
qed

theorem getLeafCount_counts_leaves_witness:
  "strictTree (Task 0 [] [Task 1 [] [], Task 2 [] [Task 3 [] [], Task 4 [] []]])
   \<and> cacheSound (Task 0 [] [Task 1 [] [], Task 2 [] [Task 3 [] [], Task 4 [] []]]) Map.empty
   \<and> fst (getLeafCount (Task 0 [] [Task 1 [] [], Task 2 [] [Task 3 [] [], Task 4 [] []]]) Map.empty) = 3
   \<and> leafNodeCount (Task 0 [] [Task 1 [] [], Task 2 [] [Task 3 [] [], Task 4 [] []]]) = 3"
proof -
  let ?t = "Task 0 [] [Task 1 [] [], Task 2 [] [Task 3 [] [], Task 4 [] []]]"
  have tree: "strictTree ?t" by (simp add: strictTree_def ids_def)
  have sound: "cacheSound ?t Map.empty" by (simp add: cacheSound_def)
  have three: "leafNodeCount ?t = 3" by (simp add: leafNodeCount_def isLeaf_def)
  from getLeafCount_counts_leaves [OF tree sound] three tree sound show ?thesis by simp
qed

subsection \<open>Task states and actions\<close>

lemmas sample_defs = sampleApp_def sampleRoot_def branchNode_def leafNode_def

lemma setTaskStateRecursive_eq:
  "setTaskStateRecursive t state st = (\<lambda>j. if j \<in> set (ids t) then Some state else st j)"
  "setTaskStateRecursive_forEach ts state st =
     (\<lambda>j. if j \<in> set (concat (map ids ts)) then Some state else st j)"
proof (induction t state st and ts state st
    rule: setTaskStateRecursive_setTaskStateRecursive_forEach.induct)
  case (1 i l ts state st)
  show ?case
    by (simp only: setTaskStateRecursive.simps "1.IH") (auto simp: ids_Task fun_eq_iff)
next
  case (2 state st)
  show ?case by simp
next
  case (3 child rest state st)
  show ?case
    by (subst setTaskStateRecursive_forEach.simps, subst "3.IH"(2), subst "3.IH"(1))
       (auto simp: fun_eq_iff)
qed

lemma setTaskStateRecursive_apply:
  "setTaskStateRecursive t state st j = (if j \<in> set (ids t) then Some state else st j)"
  by (simp add: setTaskStateRecursive_eq(1))

lemma clearTaskStateRecursive_eq:
  "clearTaskStateRecursive t st = (\<lambda>j. if j \<in> set (ids t) then None else st j)"
  "clearTaskStateRecursive_forEach ts st =
     (\<lambda>j. if j \<in> set (concat (map ids ts)) then None else st j)"
proof (induction t st and ts st
    rule: clearTaskStateRecursive_clearTaskStateRecursive_forEach.induct)
  case (1 i l ts st)
  show ?case
    by (simp only: clearTaskStateRecursive.simps "1.IH") (auto simp: ids_Task fun_eq_iff)
next
  case (2 st)
  show ?case by simp
next
  case (3 child rest st)
  show ?case
    by (subst clearTaskStateRecursive_forEach.simps, subst "3.IH"(2), subst "3.IH"(1))
       (auto simp: fun_eq_iff)
qed

lemma clearTaskStateRecursive_apply:
  "clearTaskStateRecursive t st j = (if j \<in> set (ids t) then None else st j)"
  by (simp add: clearTaskStateRecursive_eq(1))

text \<open>
  Claim C4.  \<open>handleAction\<close> with the action cancel: when the task's entry in the state
  map is cancelled, the task and every descendant end in state default; otherwise the task
  and every descendant end in state cancelled.  Restore after cancel leaves the task and
  every descendant in state default.  (It holds for every hitbox; the root never has one.)
\<close>

theorem cancel_cascades_and_restore_round_trip:
  "(taskStates s (tid (hb_task node)) = Some Cancelled \<longrightarrow>
      (\<forall>d \<in> set (nodes (hb_task node)).
         stateOf (taskStates (handleAction Cancel node s)) d = Default))
   \<and> (taskStates s (tid (hb_task node)) \<noteq> Some Cancelled \<longrightarrow>
      (\<forall>d \<in> set (nodes (hb_task node)).
         stateOf (taskStates (handleAction Cancel node s)) d = Cancelled))
   \<and> (\<forall>d \<in> set (nodes (hb_task node)).
         stateOf (taskStates (handleAction Restore node (handleAction Cancel node s))) d = Default)"
  by (simp add: handleAction_def stateOf_def setTaskStateRecursive_apply
      clearTaskStateRecursive_apply node_id_in_ids)

theorem cancel_cascades_and_restore_round_trip_witness:
  "taskStates sampleApp (tid (hb_task branchNode)) \<noteq> Some Cancelled
   \<and> Task 3 [] [] \<in> set (nodes (hb_task branchNode))
   \<and> stateOf (taskStates (handleAction Cancel branchNode sampleApp)) (Task 3 [] []) = Cancelled
   \<and> stateOf (taskStates (handleAction Restore branchNode (handleAction Cancel branchNode sampleApp)))
         (Task 3 [] []) = Default
   \<and> taskStates (handleAction Cancel branchNode sampleApp) (tid (hb_task branchNode)) = Some Cancelled
   \<and> stateOf (taskStates (handleAction Cancel branchNode (handleAction Cancel branchNode sampleApp)))
         (Task 3 [] []) = Default"
  using cancel_cascades_and_restore_round_trip [of sampleApp branchNode]
    cancel_cascades_and_restore_round_trip [of "handleAction Cancel branchNode sampleApp" branchNode]
  by (simp add: sample_defs handleAction_def)

text \<open>
  Claim C8.  \<open>getActionsForTask\<close>: a task other than the root gets cancel, rename,
  complete when its state is default and delete, restore when its state is completed or
  cancelled; the root gets no action at all.
\<close>

theorem getActionsForTask_by_state:
  "(tid task \<noteq> tid (rootTask s) \<and> stateOf (taskStates s) task = Default \<longrightarrow>
      getActionsForTask task s = [Cancel, Rename, Complete]
      \<and> set (getActionsForTask task s) = {Cancel, Rename, Complete})
   \<and> (tid task \<noteq> tid (rootTask s) \<and>
        (stateOf (taskStates s) task = Completed \<or> stateOf (taskStates s) task = Cancelled) \<longrightarrow>
      getActionsForTask task s = [Delete, Restore]
      \<and> set (getActionsForTask task s) = {Delete, Restore})
   \<and> (tid task = tid (rootTask s) \<longrightarrow>
      getActionsForTask task s = [] \<and> (\<forall>a. a \<notin> set (getActionsForTask task s)))"
  by (auto simp: getActionsForTask_def Let_def)

theorem getActionsForTask_by_state_witness:
  "tid (Task 4 [] []) \<noteq> tid (rootTask sampleApp)
   \<and> stateOf (taskStates sampleApp) (Task 4 [] []) = Default
   \<and> getActionsForTask (Task 4 [] []) sampleApp = [Cancel, Rename, Complete]
   \<and> stateOf (taskStates (handleAction Complete leafNode sampleApp)) (Task 4 [] []) = Completed
   \<and> getActionsForTask (Task 4 [] []) (handleAction Complete leafNode sampleApp) = [Delete, Restore]
   \<and> getActionsForTask sampleRoot sampleApp = []"
  using getActionsForTask_by_state [of "Task 4 [] []" sampleApp]
    getActionsForTask_by_state [of "Task 4 [] []" "handleAction Complete leafNode sampleApp"]
    getActionsForTask_by_state [of sampleRoot sampleApp]
  by (simp add: sample_defs handleAction_def stateOf_def)

subsection \<open>The object graph\<close>

lemma findTask_None:
  "(findTask r t = None) = (r \<notin> set (ids t))"
  "(findTaskIn r ts = None) = (r \<notin> set (concat (map ids ts)))"
  by (induction r t and r ts rule: findTask_findTaskIn.induct)
     (auto simp: ids_Task split: option.splits)

lemma findTask_Some:
  "findTask r t = Some x \<Longrightarrow> x \<in> set (nodes t) \<and> tid x = r"
  "findTaskIn r ts = Some x \<Longrightarrow> x \<in> set (concat (map nodes ts)) \<and> tid x = r"
  by (induction r t and r ts rule: findTask_findTaskIn.induct)
     (auto split: option.splits if_splits)

lemma findTask_strict:
  "strictTree t \<Longrightarrow> x \<in> set (nodes t) \<Longrightarrow> findTask (tid x) t = Some x"
proof -
  assume tree: "strictTree t" and x: "x \<in> set (nodes t)"
  from x have "tid x \<in> set (ids t)" by (rule node_id_in_ids)
  then obtain y where y: "findTask (tid x) t = Some y"
    using findTask_None(1) [of "tid x" t] by (cases "findTask (tid x) t") auto
  from findTask_Some(1) [OF y] have "y \<in> set (nodes t)" and "tid y = tid x" by simp_all
  with tree x have "y = x" using strictTree_inj by blast
  with y show ?thesis by simp
qed

lemma tid_assignSubtasks [simp]: "tid (assignSubtasks r f t) = tid t"
  by (cases t) simp

lemma tid_assignLabel [simp]: "tid (assignLabel r v t) = tid t"
  by (cases t) simp

lemma objectOf_Task:
  "objectOf (Task i l ts) j =
     (if i = j then Some (l, map tid ts) else map_option fieldsOf (findTaskIn j ts))"
  by (simp add: objectOf_def fieldsOf_def)

lemma findTaskIn_filter:
  "\<forall>x \<in> set ts. \<not> P x \<longrightarrow> j \<notin> set (ids x) \<Longrightarrow> findTaskIn j (filter P ts) = findTaskIn j ts"
proof (induction ts)
  case Nil
  show ?case by simp
next
  case (Cons a ts)
  then have IH: "findTaskIn j (filter P ts) = findTaskIn j ts" by simp
  show ?case
  proof (cases "P a")
    case True
    with IH show ?thesis by (simp split: option.splits)
  next
    case False
    with Cons.prems have "j \<notin> set (ids a)" by simp
    then have "findTask j a = None" by (simp add: findTask_None)
    with False IH show ?thesis by simp
  qed
qed

lemma findTaskIn_map_cong:
  "\<forall>x \<in> set ts. map_option fieldsOf (findTask j (g x)) = map_option fieldsOf (findTask j x)
   \<Longrightarrow> map_option fieldsOf (findTaskIn j (map g ts)) = map_option fieldsOf (findTaskIn j ts)"
  by (induction ts) (auto split: option.splits)

lemma objectOf_assignSubtasks_filter_other:
  assumes "j \<noteq> r"
    and "\<forall>x \<in> set (nodes t). tid x = c \<longrightarrow> j \<notin> set (ids x)"
  shows "objectOf (assignSubtasks r (filter (\<lambda>child. tid child \<noteq> c)) t) j = objectOf t j"
  using assms
proof (induction t)
  case (Task i l ts)
  show ?case
  proof (cases "i = r")
    case True
    have "\<forall>x \<in> set ts. \<not> tid x \<noteq> c \<longrightarrow> j \<notin> set (ids x)"
    proof (intro ballI impI)
      fix x assume x: "x \<in> set ts" and "\<not> tid x \<noteq> c"
      then have "tid x = c" by simp
      moreover have "x \<in> set (nodes (Task i l ts))" using x self_in_nodes [of x] by auto
      ultimately show "j \<notin> set (ids x)" using Task.prems(2) by blast
    qed
    then have "findTaskIn j (filter (\<lambda>child. tid child \<noteq> c) ts) = findTaskIn j ts"
      by (rule findTaskIn_filter)
    with True Task.prems(1) show ?thesis by (simp add: objectOf_Task)
  next
    case False
    have "\<forall>x \<in> set ts. map_option fieldsOf (findTask j (assignSubtasks r (filter (\<lambda>child. tid child \<noteq> c)) x))
            = map_option fieldsOf (findTask j x)"
    proof
      fix x assume x: "x \<in> set ts"
      then have "set (nodes x) \<subseteq> set (nodes (Task i l ts))" by auto
      with Task.prems(2) have "\<forall>y \<in> set (nodes x). tid y = c \<longrightarrow> j \<notin> set (ids y)" by blast
      from Task.IH [OF x Task.prems(1) this]
      show "map_option fieldsOf (findTask j (assignSubtasks r (filter (\<lambda>child. tid child \<noteq> c)) x))
            = map_option fieldsOf (findTask j x)" by (simp add: objectOf_def)
    qed
    then have "map_option fieldsOf (findTaskIn j (map (assignSubtasks r (filter (\<lambda>child. tid child \<noteq> c))) ts))
         = map_option fieldsOf (findTaskIn j ts)" by (rule findTaskIn_map_cong)
    with False show ?thesis by (simp add: objectOf_Task)
  qed
qed

lemma ids_assignSubtasks_filter:
  "set (ids (assignSubtasks r (filter P) t)) \<subseteq> set (ids t)"
proof (induction t)
  case (Task i l ts)
  show ?case
  proof (cases "i = r")
    case True
    then show ?thesis by (auto simp: ids_Task)
  next
    case False
    with Task show ?thesis by (auto simp: ids_Task)
  qed
qed

lemma objectOf_assignSubtasks_filter_self:
  "findTask r t = Some p \<Longrightarrow>
     objectOf (assignSubtasks r (filter (\<lambda>child. tid child \<noteq> c)) t) r
       = Some (label p, filter (\<lambda>j. j \<noteq> c) (map tid (subtasks p)))"
  "findTaskIn r ts = Some p \<Longrightarrow>
     map_option fieldsOf (findTaskIn r (map (assignSubtasks r (filter (\<lambda>child. tid child \<noteq> c))) ts))
       = Some (label p, filter (\<lambda>j. j \<noteq> c) (map tid (subtasks p)))"
proof (induction r t and r ts rule: findTask_findTaskIn.induct)
  case (1 r i l ts)
  show ?case
  proof (cases "i = r")
    case True
    with "1.prems" have "p = Task i l ts" by simp
    with True show ?thesis by (simp add: objectOf_Task filter_map comp_def)
  next
    case False
    with "1.prems" have "findTaskIn r ts = Some p" by simp
    from "1.IH" [OF False this] False show ?thesis by (simp add: objectOf_Task)
  qed
next
  case (2 r)
  then show ?case by simp
next
  case (3 r t ts)
  let ?A = "assignSubtasks r (filter (\<lambda>child. tid child \<noteq> c))"
  show ?case
  proof (cases "findTask r t")
    case None
    with "3.prems" have rest: "findTaskIn r ts = Some p" by simp
    from None have "r \<notin> set (ids t)" by (simp add: findTask_None)
    with ids_assignSubtasks_filter [of r _ t] have "r \<notin> set (ids (?A t))" by blast
    then have "findTask r (?A t) = None" by (simp add: findTask_None)
    with "3.IH"(2) [OF None rest] show ?thesis by simp
  next
    case (Some x)
    with "3.prems" have "x = p" by simp
    with Some "3.IH"(1) have "objectOf (?A t) r = Some (label p, filter (\<lambda>j. j \<noteq> c) (map tid (subtasks p)))"
      by simp
    then show ?thesis by (auto simp: objectOf_def split: option.splits)
  qed
qed

lemma filter_removes_one:
  "distinct xs \<Longrightarrow> c \<in> set xs \<Longrightarrow>
     \<exists>before after. xs = before @ [c] @ after \<and> filter (\<lambda>j. j \<noteq> c) xs = before @ after"
proof -
  assume d: "distinct xs" and c: "c \<in> set xs"
  from c obtain ys zs where xs: "xs = ys @ c # zs" by (auto dest: split_list)
  with d have "c \<notin> set ys" "c \<notin> set zs" by auto
  then have "filter (\<lambda>j. j \<noteq> c) ys = ys" "filter (\<lambda>j. j \<noteq> c) zs = zs"
    by (auto simp: filter_id_conv)
  then have "filter (\<lambda>j. j \<noteq> c) xs = ys @ zs" unfolding xs by simp
  with xs show ?thesis by auto
qed

lemma ids_assignLabel:
  "ids (assignLabel r v t) = ids t"
proof (induction t)
  case (Task i l ts)
  then show ?case by (simp add: ids_Task comp_def cong: map_cong)
qed

lemma objectOf_assignLabel_self:
  "findTask r t = Some x \<Longrightarrow>
     objectOf (assignLabel r v t) r = Some (v, map tid (subtasks x))"
  "findTaskIn r ts = Some x \<Longrightarrow>
     map_option fieldsOf (findTaskIn r (map (assignLabel r v) ts)) = Some (v, map tid (subtasks x))"
proof (induction r t and r ts rule: findTask_findTaskIn.induct)
  case (1 r i l ts)
  show ?case
  proof (cases "i = r")
    case True
    with "1.prems" have "x = Task i l ts" by simp
    with True show ?thesis by (simp add: objectOf_Task)
  next
    case False
    with "1.prems" have "findTaskIn r ts = Some x" by simp
    from "1.IH" [OF False this] False show ?thesis by (simp add: objectOf_Task)
  qed
next
  case (2 r)
  then show ?case by simp
next
  case (3 r t ts)
  show ?case
  proof (cases "findTask r t")
    case None
    with "3.prems" have rest: "findTaskIn r ts = Some x" by simp
    from None have "r \<notin> set (ids (assignLabel r v t))" by (simp add: findTask_None ids_assignLabel)
    then have "findTask r (assignLabel r v t) = None" by (simp add: findTask_None)
    with "3.IH"(2) [OF None rest] show ?thesis by simp
  next
    case (Some y)
    with "3.prems" have "y = x" by simp
    with Some "3.IH"(1) have "objectOf (assignLabel r v t) r = Some (v, map tid (subtasks x))"
      by simp
    then show ?thesis by (auto simp: objectOf_def split: option.splits)
  qed
qed

lemma objectOf_assignLabel_other:
  "j \<noteq> r \<Longrightarrow> objectOf (assignLabel r v t) j = objectOf t j"
proof (induction t)
  case (Task i l ts)
  show ?case
  proof (cases "i = r")
    case True
    with Task.prems show ?thesis by (simp add: objectOf_Task)
  next
    case False
    have "\<forall>x \<in> set ts. map_option fieldsOf (findTask j (assignLabel r v x))
            = map_option fieldsOf (findTask j x)"
      using Task by (simp add: objectOf_def)
    then have "map_option fieldsOf (findTaskIn j (map (assignLabel r v) ts))
         = map_option fieldsOf (findTaskIn j ts)" by (rule findTaskIn_map_cong)
    with False show ?thesis by (simp add: objectOf_Task)
  qed
qed

subsection \<open>Layout\<close>

lemma progressOk_node:
  "progressOk env st \<Longrightarrow> progressOk env (drawTask_node env task rng level h d parent renderNode st)"
  by (simp add: progressOk_def drawTask_node_def Let_def)

lemma progressOk_upd [simp]:
  "progressOk env (st\<lparr>leafCounts := lc\<rparr>) = progressOk env st"
  "progressOk env (st\<lparr>leafCounts := lc, slotLog := sl\<rparr>) = progressOk env st"
  by (simp_all add: progressOk_def)

lemma drawTask_progressOk:
  "progressOk env st \<Longrightarrow> progressOk env (drawTask env t rng level h d parent renderNode st)"
  "progressOk env st \<Longrightarrow> progressOk env (drawSubtasks env task ts totalLeaves spn level h offset st)"
proof (induction env t rng level h d parent renderNode st and env task ts totalLeaves spn level h offset st
    rule: drawTask_drawSubtasks.induct)
  case (1 env i l ts rng level h d parent renderNode st)
  let ?st1 = "drawTask_node env (Task i l ts) rng level h d parent renderNode st"
  have ok1: "progressOk env ?st1" using "1.prems" by (rule progressOk_node)
  show ?case
  proof (cases "length ts = 0")
    case True
    with ok1 show ?thesis by simp
  next
    case False
    obtain s lc where sum: "sumLeafCounts ts 0 (leafCounts ?st1) = (s, lc)"
      by (cases "sumLeafCounts ts 0 (leafCounts ?st1)")
    from ok1 have "progressOk env (?st1\<lparr>leafCounts := lc\<rparr>)" by simp
    from "1.IH" [OF refl False sum [symmetric] refl refl this]
    show ?thesis using False sum by (simp add: Let_def)
  qed
next
  case (2 env task totalLeaves spn level h offset st)
  then show ?case by simp
next
  case (3 env task subtask rest totalLeaves spn level h offset st)
  obtain n lc where g: "getLeafCount subtask (leafCounts st) = (n, lc)"
    by (cases "getLeafCount subtask (leafCounts st)")
  let ?sl = "childSlot task subtask n totalLeaves spn offset h"
  let ?st0 = "st\<lparr>leafCounts := lc, slotLog := slotLog st @ [?sl]\<rparr>"
  from "3.prems" have "progressOk env ?st0" by simp
  from "3.IH"(1) [OF g [symmetric] refl refl this]
  have "progressOk env (drawTask env subtask (childStart ?sl + padding ?sl, childEnd ?sl - padding ?sl)
           (level + 1) h (maxDepth subtask (level + 1)) (Some task) True ?st0)" .
  from "3.IH"(2) [OF g [symmetric] refl refl refl this]
  show ?case using g by (simp add: Let_def)
qed

lemma slotOk_childSlot: "slotOk h (childSlot task subtask n totalLeaves spn offset h)"
  by (simp add: slotOk_def childSlot_def Let_def min_def)

lemma logsOk_node:
  "logsOk h st \<Longrightarrow> fst rng < snd rng \<Longrightarrow>
   logsOk h (drawTask_node env task rng level h d parent renderNode st)"
  by (auto simp: logsOk_def drawTask_node_def Let_def split_beta)

lemma logsOk_leafCounts [simp]: "logsOk h (st\<lparr>leafCounts := lc\<rparr>) = logsOk h st"
  by (simp add: logsOk_def)

lemma logsOk_slot:
  "logsOk h st \<Longrightarrow> slotOk h sl \<Longrightarrow> logsOk h (st\<lparr>leafCounts := lc, slotLog := slotLog st @ [sl]\<rparr>)"
  by (simp add: logsOk_def)

lemma drawTask_logsOk:
  "logsOk h st \<Longrightarrow> fst rng < snd rng \<Longrightarrow>
     logsOk h (drawTask env t rng level h d parent renderNode st)"
  "logsOk h st \<Longrightarrow> logsOk h (drawSubtasks env task ts totalLeaves spn level h offset st)"
proof (induction env t rng level h d parent renderNode st and env task ts totalLeaves spn level h offset st
    rule: drawTask_drawSubtasks.induct)
  case (1 env i l ts rng level h d parent renderNode st)
  let ?st1 = "drawTask_node env (Task i l ts) rng level h d parent renderNode st"
  have ok1: "logsOk h ?st1" using "1.prems" by (rule logsOk_node)
  show ?case
  proof (cases "length ts = 0")
    case True
    with ok1 show ?thesis by simp
  next
    case False
    obtain s lc where sum: "sumLeafCounts ts 0 (leafCounts ?st1) = (s, lc)"
      by (cases "sumLeafCounts ts 0 (leafCounts ?st1)")
    from ok1 have "logsOk h (?st1\<lparr>leafCounts := lc\<rparr>)" by simp
    from "1.IH" [OF refl False sum [symmetric] refl refl this]
    show ?thesis using False sum by (simp add: Let_def)
  qed
next
  case (2 env task totalLeaves spn level h offset st)
  then show ?case by simp
next
  case (3 env task subtask rest totalLeaves spn level h offset st)
  obtain n lc where g: "getLeafCount subtask (leafCounts st) = (n, lc)"
    by (cases "getLeafCount subtask (leafCounts st)")
  let ?sl = "childSlot task subtask n totalLeaves spn offset h"
  let ?st0 = "st\<lparr>leafCounts := lc, slotLog := slotLog st @ [?sl]\<rparr>"
  have ok: "slotOk h ?sl" by (rule slotOk_childSlot)
  with "3.prems" have ok0: "logsOk h ?st0" by (rule logsOk_slot)
  from ok have pos: "fst (childStart ?sl + padding ?sl, childEnd ?sl - padding ?sl)
                   < snd (childStart ?sl + padding ?sl, childEnd ?sl - padding ?sl)"
    by (simp add: slotOk_def)
  from "3.IH"(1) [OF g [symmetric] refl refl ok0 pos]
  have "logsOk h (drawTask env subtask (childStart ?sl + padding ?sl, childEnd ?sl - padding ?sl)
           (level + 1) h (maxDepth subtask (level + 1)) (Some task) True ?st0)" .
  from "3.IH"(2) [OF g [symmetric] refl refl refl this]
  show ?case using g by (simp add: Let_def)
qed

text \<open>
  Claim C3.  In a render of any tree, every loop iteration of \<open>drawTask\<close>, at every depth,
  computes the padding as the minimum of \<open>childSpan / 2 - 1e-4\<close> and
  \<open>NODE_VERTICAL_MARGIN / layoutHeight\<close>; the padding is at most \<open>childSpan / 2 - 1e-4\<close>;
  the padded range \<open>[childStart + padding, childEnd - padding]\<close> has positive width; and
  every invocation of \<open>drawTask\<close> gets a range of positive width.
\<close>

theorem padded_child_ranges_have_positive_width:
  "(\<forall>sl \<in> set (slotLog (renderLayout st starts progress viewportWidth tree)).
       padding sl = min (childSpan sl / 2 - 1 / 10000)
                        (NODE_VERTICAL_MARGIN / fst (computeLayoutHeight tree Map.empty))
     \<and> padding sl \<le> childSpan sl / 2 - 1 / 10000
     \<and> 0 < (childEnd sl - padding sl) - (childStart sl + padding sl))
   \<and> (\<forall>(i, start, stop) \<in> set (callLog (renderLayout st starts progress viewportWidth tree)).
         start < stop)"
proof -
  obtain h lc where c: "computeLayoutHeight tree Map.empty = (h, lc)"
    by (cases "computeLayoutHeight tree Map.empty")
  let ?env = "\<lparr>levelGap = computeLevelGap (maxDepth tree 0) viewportWidth, env_taskStates = st,
                layoutAnimationStartPositions = starts, layoutAnimationProgress = progress\<rparr>"
  let ?st0 = "\<lparr>leafCounts = lc, pendingNodes = [], displayPositions = Map.empty,
                callLog = [], slotLog = []\<rparr>"
  have r: "renderLayout st starts progress viewportWidth tree
             = drawTask ?env tree (0, 1) 0 h (maxDepth tree 0) None False ?st0"
    by (simp add: renderLayout_def drawTree_def c Let_def)
  have "logsOk h ?st0" by (simp add: logsOk_def)
  then have "logsOk h (drawTask ?env tree (0, 1) 0 h (maxDepth tree 0) None False ?st0)"
    by (rule drawTask_logsOk(1)) simp
  then show ?thesis unfolding r c fst_conv logsOk_def slotOk_def by blast
qed

theorem padded_child_ranges_have_positive_width_witness:
  "map (\<lambda>sl. (sl_task sl, childSpan sl, padding sl))
       (slotLog (renderLayout Map.empty None 1 1000 chain))
     = [(1, 1, 2 / 9), (2, 5 / 9, 2 / 9), (3, 1 / 9, 4991 / 90000),
        (4, 1 / 5000, 0), (5, 1 / 5000, 0)]
   \<and> callLog (renderLayout Map.empty None 1 1000 chain)
     = [(0, 0, 1), (1, 2 / 9, 7 / 9), (2, 4 / 9, 5 / 9), (3, 4999 / 10000, 5001 / 10000),
        (4, 4999 / 10000, 5001 / 10000), (5, 4999 / 10000, 5001 / 10000)]
   \<and> list_all (\<lambda>sl. 0 < (childEnd sl - padding sl) - (childStart sl + padding sl))
         (slotLog (renderLayout Map.empty None 1 1000 chain))
   \<and> list_all (\<lambda>(i, start, stop). start < stop)
         (callLog (renderLayout Map.empty None 1 1000 chain))"
proof -
  have slots: "map (\<lambda>sl. (sl_task sl, childSpan sl, padding sl))
       (slotLog (renderLayout Map.empty None 1 1000 chain))
     = [(1, 1, 2 / 9), (2, 5 / 9, 2 / 9), (3, 1 / 9, 4991 / 90000),
        (4, 1 / 5000, 0), (5, 1 / 5000, 0)]"
    by code_simp
  have calls: "callLog (renderLayout Map.empty None 1 1000 chain)
     = [(0, 0, 1), (1, 2 / 9, 7 / 9), (2, 4 / 9, 5 / 9), (3, 4999 / 10000, 5001 / 10000),
        (4, 4999 / 10000, 5001 / 10000), (5, 4999 / 10000, 5001 / 10000)]"
    by code_simp
  from padded_child_ranges_have_positive_width [of Map.empty None 1 1000 chain]
  have "list_all (\<lambda>sl. 0 < (childEnd sl - padding sl) - (childStart sl + padding sl))
         (slotLog (renderLayout Map.empty None 1 1000 chain))"
    and "list_all (\<lambda>(i, start, stop). start < stop)
         (callLog (renderLayout Map.empty None 1 1000 chain))"
    unfolding list_all_iff by blast+
  with slots calls show ?thesis by blast
qed

lemma slotLog_node [simp]:
  "slotLog (drawTask_node env task rng level h d parent renderNode st) = slotLog st"
  by (simp add: drawTask_node_def Let_def)

lemma leafCounts_node [simp]:
  "leafCounts (drawTask_node env task rng level h d parent renderNode st) = leafCounts st"
  by (simp add: drawTask_node_def Let_def)





lemma fields_childSlot [simp]:
  "sl_task (childSlot task c n totalLeaves spn offset h) = tid c"
  "childStart (childSlot task c n totalLeaves spn offset h) = offset"
  "childEnd (childSlot task c n totalLeaves spn offset h)
     = offset + childSpan (childSlot task c n totalLeaves spn offset h)"
  by (simp_all add: childSlot_def Let_def)


lemma loopSlots_length [simp]: "length (loopSlots task ts totalLeaves spn offset h) = length ts"
  by (induction ts arbitrary: offset) simp_all





lemma pendingLive_upd [simp]:
  "pendingLive tree (st\<lparr>leafCounts := lc\<rparr>) = pendingLive tree st"
  "pendingLive tree (st\<lparr>leafCounts := lc, slotLog := sl\<rparr>) = pendingLive tree st"
  by (simp_all add: pendingLive_def)

lemma pendingLive_node:
  "pendingLive tree st \<Longrightarrow> task \<in> set (nodes tree) \<Longrightarrow>
   (renderNode \<longrightarrow> (\<exists>p. parent = Some p \<and> p \<in> set (nodes tree) \<and> task \<in> set (subtasks p))) \<Longrightarrow>
   pendingLive tree (drawTask_node env task rng level h d parent renderNode st)"
  by (simp add: pendingLive_def drawTask_node_def Let_def)

lemma drawTask_pendingLive:
  "pendingLive tree st \<Longrightarrow> t \<in> set (nodes tree) \<Longrightarrow>
   (renderNode \<longrightarrow> (\<exists>p. parent = Some p \<and> p \<in> set (nodes tree) \<and> t \<in> set (subtasks p))) \<Longrightarrow>
     pendingLive tree (drawTask env t rng level h d parent renderNode st)"
  "pendingLive tree st \<Longrightarrow> task \<in> set (nodes tree) \<Longrightarrow> set ts \<subseteq> set (subtasks task) \<Longrightarrow>
     pendingLive tree (drawSubtasks env task ts totalLeaves spn level h offset st)"
proof (induction env t rng level h d parent renderNode st and env task ts totalLeaves spn level h offset st
    rule: drawTask_drawSubtasks.induct)
  case (1 env i l ts rng level h d parent renderNode st)
  let ?st1 = "drawTask_node env (Task i l ts) rng level h d parent renderNode st"
  have ok1: "pendingLive tree ?st1" using "1.prems" by (rule pendingLive_node)
  show ?case
  proof (cases "length ts = 0")
    case True
    with ok1 show ?thesis by simp
  next
    case False
    obtain s lc where sum: "sumLeafCounts ts 0 (leafCounts ?st1) = (s, lc)"
      by (cases "sumLeafCounts ts 0 (leafCounts ?st1)")
    from ok1 have "pendingLive tree (?st1\<lparr>leafCounts := lc\<rparr>)" by simp
    from "1.IH" [OF refl False sum [symmetric] refl refl this "1.prems"(2)]
    show ?thesis using False sum by (simp add: Let_def)
  qed
next
  case (2 env task totalLeaves spn level h offset st)
  then show ?case by simp
next
  case (3 env task subtask rest totalLeaves spn level h offset st)
  obtain n lc where g: "getLeafCount subtask (leafCounts st) = (n, lc)"
    by (cases "getLeafCount subtask (leafCounts st)")
  let ?sl = "childSlot task subtask n totalLeaves spn offset h"
  let ?st0 = "st\<lparr>leafCounts := lc, slotLog := slotLog st @ [?sl]\<rparr>"
  from "3.prems" have ok0: "pendingLive tree ?st0" by simp
  from "3.prems" have child: "subtask \<in> set (subtasks task)" and rest: "set rest \<subseteq> set (subtasks task)"
    by simp_all
  from child have "subtask \<in> set (nodes task)" by (rule child_in_nodes)
  with "3.prems"(2) have sub_in: "subtask \<in> set (nodes tree)" using nodes_trans by blast
  have par: "True \<longrightarrow> (\<exists>p. Some task = Some p \<and> p \<in> set (nodes tree) \<and> subtask \<in> set (subtasks p))"
    using "3.prems"(2) child by simp
  from "3.IH"(1) [OF g [symmetric] refl refl ok0 sub_in par]
  have "pendingLive tree (drawTask env subtask (childStart ?sl + padding ?sl, childEnd ?sl - padding ?sl)
           (level + 1) h (maxDepth subtask (level + 1)) (Some task) True ?st0)" .
  from "3.IH"(2) [OF g [symmetric] refl refl refl this "3.prems"(2) rest]
  show ?case using g by (simp add: Let_def)
qed

lemma rendered_hitboxes_live:
  assumes tree: "strictTree tree"
    and node: "node \<in> set (drawPendingNodes (renderLayout st starts progress viewportWidth tree))"
  shows "findTask (tid (hb_task node)) tree = Some (hb_task node)
       \<and> (\<exists>p. hb_parent node = Some p \<and> findTask (tid p) tree = Some p
              \<and> hb_task node \<in> set (subtasks p))"
proof -
  obtain h lc where c: "computeLayoutHeight tree Map.empty = (h, lc)"
    by (cases "computeLayoutHeight tree Map.empty")
  let ?env = "\<lparr>levelGap = computeLevelGap (maxDepth tree 0) viewportWidth, env_taskStates = st,
                layoutAnimationStartPositions = starts, layoutAnimationProgress = progress\<rparr>"
  let ?st0 = "\<lparr>leafCounts = lc, pendingNodes = [], displayPositions = Map.empty,
                callLog = [], slotLog = []\<rparr>"
  have r: "renderLayout st starts progress viewportWidth tree
             = drawTask ?env tree (0, 1) 0 h (maxDepth tree 0) None False ?st0"
    by (simp add: renderLayout_def drawTree_def c Let_def)
  have "pendingLive tree ?st0" by (simp add: pendingLive_def)
  then have "pendingLive tree (drawTask ?env tree (0, 1) 0 h (maxDepth tree 0) None False ?st0)"
    by (rule drawTask_pendingLive(1)) (simp_all add: self_in_nodes)
  with node obtain p where p: "hb_parent node = Some p" and p_in: "p \<in> set (nodes tree)"
    and child: "hb_task node \<in> set (subtasks p)"
    unfolding r [symmetric] pendingLive_def drawPendingNodes_def by auto
  from child have "hb_task node \<in> set (nodes p)" by (rule child_in_nodes)
  with p_in have "hb_task node \<in> set (nodes tree)" using nodes_trans by blast
  with tree have "findTask (tid (hb_task node)) tree = Some (hb_task node)"
    by (rule findTask_strict)
  moreover from tree p_in have "findTask (tid p) tree = Some p" by (rule findTask_strict)
  ultimately show ?thesis using p child by blast
qed

lemma hitboxes_sample:
  "drawPendingNodes (renderLayout Map.empty None 1 1000 sampleRoot)
     = [branchNode,
        \<lparr>hb_task = Task 2 [] [], hb_parent = Some (Task 1 [] [Task 2 [] [], Task 3 [] []])\<rparr>,
        \<lparr>hb_task = Task 3 [] [], hb_parent = Some (Task 1 [] [Task 2 [] [], Task 3 [] []])\<rparr>,
        leafNode,
        \<lparr>hb_task = Task 5 [] [], hb_parent = Some sampleRoot\<rparr>]"
  by code_simp

subsection \<open>Completion progress\<close>

lemma stateOf_Completed: "(stateOf st c = Completed) = (st (tid c) = Some Completed)"
  by (simp add: stateOf_def split: option.splits)

lemma length_filter_key:
  "distinct (map f xs) \<Longrightarrow> a \<in> set xs \<Longrightarrow> length (filter (\<lambda>c. f c = f a) xs) = 1"
proof (induction xs)
  case Nil
  then show ?case by simp
next
  case (Cons x xs)
  show ?case
  proof (cases "f x = f a")
    case True
    with Cons.prems have "f a \<notin> f ` set xs" by simp
    then have "\<forall>c \<in> set xs. f c \<noteq> f a" by (metis imageI)
    then have "filter (\<lambda>c. f c = f a) xs = []" by (simp add: filter_empty_conv)
    with True show ?thesis by simp
  next
    case False
    with Cons.prems have "a \<in> set xs" by auto
    with Cons.IH Cons.prems(1) False show ?thesis by simp
  qed
qed

lemma length_filter_either:
  "\<forall>c \<in> set xs. \<not> (P c \<and> Q c) \<Longrightarrow>
     length (filter (\<lambda>c. P c \<or> Q c) xs) = length (filter P xs) + length (filter Q xs)"
  by (induction xs) auto

lemma progressRatio_taskProgress:
  assumes "subtasks parent \<noteq> []"
  shows "progressRatio (taskProgress st parent)
           = Some (real (length (filter (\<lambda>child. stateOf st child = Completed) (subtasks parent)))
                     / real (length (subtasks parent)))"
proof -
  let ?k = "length (filter (\<lambda>child. stateOf st child = Completed) (subtasks parent))"
  let ?n = "length (subtasks parent)"
  from assms have n: "0 < ?n" by simp
  have "?k \<le> ?n" by (rule length_filter_le)
  with n have "real ?k / real ?n \<le> 1" by simp
  then have "min (real ?k / real ?n) 1 = real ?k / real ?n" by simp
  with n show ?thesis by (simp add: progressRatio_def taskProgress_def)
qed

lemma complete_states:
  "taskStates (handleAction Complete node s)
     = (if taskStates s (tid (hb_task node)) = Some Completed
        then (taskStates s)(tid (hb_task node) := None)
        else (taskStates s)(tid (hb_task node) \<mapsto> Completed))"
  by (simp add: handleAction_def Let_def)

lemma two_of_four:
  assumes four: "length cs = 4"
    and dist: "distinct (map tid cs)"
    and fresh: "\<forall>c \<in> set cs. stateOf (taskStates s) c \<noteq> Completed"
    and a: "hb_task na \<in> set cs" and b: "hb_task nb \<in> set cs"
    and ab: "tid (hb_task na) \<noteq> tid (hb_task nb)"
  shows "length (filter (\<lambda>child.
            stateOf (taskStates (handleAction Complete nb (handleAction Complete na s))) child = Completed) cs) = 2"
proof -
  let ?a = "hb_task na" and ?b = "hb_task nb"
  let ?st = "taskStates (handleAction Complete nb (handleAction Complete na s))"
  from fresh a have na: "taskStates s (tid ?a) \<noteq> Some Completed" by (simp add: stateOf_Completed)
  from fresh b have nb: "taskStates s (tid ?b) \<noteq> Some Completed" by (simp add: stateOf_Completed)
  have st: "?st = (taskStates s)(tid ?a \<mapsto> Completed, tid ?b \<mapsto> Completed)"
    using na nb ab by (simp add: complete_states)
  have "\<forall>c \<in> set cs. (stateOf ?st c = Completed) = (tid c = tid ?a \<or> tid c = tid ?b)"
    using fresh by (simp add: st stateOf_Completed)
  then have "filter (\<lambda>child. stateOf ?st child = Completed) cs
           = filter (\<lambda>c. tid c = tid ?a \<or> tid c = tid ?b) cs"
    by (intro filter_cong) simp_all
  moreover have "length (filter (\<lambda>c. tid c = tid ?a \<or> tid c = tid ?b) cs)
      = length (filter (\<lambda>c. tid c = tid ?a) cs) + length (filter (\<lambda>c. tid c = tid ?b) cs)"
    using ab by (intro length_filter_either) auto
  ultimately show ?thesis
    using length_filter_key [OF dist a] length_filter_key [OF dist b] by simp
qed

text \<open>
  Claim C5.  \<open>handleAction\<close> with the action complete turns the state of its task from
  completed into default and from anything else into completed, changes no other entry of
  the state map and leaves the tree as it is.  Every node that a render draws carries the
  \<open>taskProgress\<close> of its task, and for a task with subtasks the ratio shown is the number
  of its direct subtasks in state completed divided by the number of its direct subtasks.
  Completing two different subtasks of a parent with four subtasks, none completed before,
  gives the ratio 1/2.
\<close>

theorem complete_toggles_target_and_progress_ratio:
  "stateOf (taskStates (handleAction Complete node s)) (hb_task node)
     = (if stateOf (taskStates s) (hb_task node) = Completed then Default else Completed)
   \<and> (\<forall>j. j \<noteq> tid (hb_task node) \<longrightarrow>
         taskStates (handleAction Complete node s) j = taskStates s j)
   \<and> rootTask (handleAction Complete node s) = rootTask s
   \<and> (\<forall>pn \<in> set (pendingNodes (renderLayout st starts progress viewportWidth tree)).
         pn_progress pn = taskProgress st (pn_task pn))
   \<and> (subtasks parent \<noteq> [] \<longrightarrow>
         progressRatio (taskProgress st parent)
           = Some (real (length (filter (\<lambda>child. stateOf st child = Completed) (subtasks parent)))
                     / real (length (subtasks parent))))
   \<and> (length (subtasks parent) = 4 \<and> distinct (map tid (subtasks parent))
        \<and> (\<forall>c \<in> set (subtasks parent). stateOf (taskStates s) c \<noteq> Completed)
        \<and> hb_task na \<in> set (subtasks parent) \<and> hb_task nb \<in> set (subtasks parent)
        \<and> tid (hb_task na) \<noteq> tid (hb_task nb) \<longrightarrow>
         progressRatio (taskProgress
             (taskStates (handleAction Complete nb (handleAction Complete na s))) parent)
           = Some (1 / 2))"
proof -
  have c1: "stateOf (taskStates (handleAction Complete node s)) (hb_task node)
     = (if stateOf (taskStates s) (hb_task node) = Completed then Default else Completed)"
    by (simp add: complete_states stateOf_def split: option.splits)
  have c2: "\<forall>j. j \<noteq> tid (hb_task node) \<longrightarrow>
         taskStates (handleAction Complete node s) j = taskStates s j"
    by (simp add: complete_states)
  have c3: "rootTask (handleAction Complete node s) = rootTask s"
    by (simp add: handleAction_def Let_def)
  have c4: "\<forall>pn \<in> set (pendingNodes (renderLayout st starts progress viewportWidth tree)).
         pn_progress pn = taskProgress st (pn_task pn)"
  proof -
    obtain h lc where c: "computeLayoutHeight tree Map.empty = (h, lc)"
      by (cases "computeLayoutHeight tree Map.empty")
    let ?env = "\<lparr>levelGap = computeLevelGap (maxDepth tree 0) viewportWidth, env_taskStates = st,
                  layoutAnimationStartPositions = starts, layoutAnimationProgress = progress\<rparr>"
    let ?st0 = "\<lparr>leafCounts = lc, pendingNodes = [], displayPositions = Map.empty,
                  callLog = [], slotLog = []\<rparr>"
    have r: "renderLayout st starts progress viewportWidth tree
               = drawTask ?env tree (0, 1) 0 h (maxDepth tree 0) None False ?st0"
      by (simp add: renderLayout_def drawTree_def c Let_def)
    have "progressOk ?env ?st0" by (simp add: progressOk_def)
    then have "progressOk ?env (drawTask ?env tree (0, 1) 0 h (maxDepth tree 0) None False ?st0)"
      by (rule drawTask_progressOk(1))
    then show ?thesis unfolding r progressOk_def by simp
  qed
  have c5: "subtasks parent \<noteq> [] \<longrightarrow>
         progressRatio (taskProgress st parent)
           = Some (real (length (filter (\<lambda>child. stateOf st child = Completed) (subtasks parent)))
                     / real (length (subtasks parent)))"
    using progressRatio_taskProgress by blast
  have c6: "length (subtasks parent) = 4 \<and> distinct (map tid (subtasks parent))
        \<and> (\<forall>c \<in> set (subtasks parent). stateOf (taskStates s) c \<noteq> Completed)
        \<and> hb_task na \<in> set (subtasks parent) \<and> hb_task nb \<in> set (subtasks parent)
        \<and> tid (hb_task na) \<noteq> tid (hb_task nb) \<longrightarrow>
         progressRatio (taskProgress
             (taskStates (handleAction Complete nb (handleAction Complete na s))) parent)
           = Some (1 / 2)"
  proof
    assume h: "length (subtasks parent) = 4 \<and> distinct (map tid (subtasks parent))
        \<and> (\<forall>c \<in> set (subtasks parent). stateOf (taskStates s) c \<noteq> Completed)
        \<and> hb_task na \<in> set (subtasks parent) \<and> hb_task nb \<in> set (subtasks parent)
        \<and> tid (hb_task na) \<noteq> tid (hb_task nb)"
    then have ne: "subtasks parent \<noteq> []" by auto
    from h have "length (filter (\<lambda>child.
            stateOf (taskStates (handleAction Complete nb (handleAction Complete na s))) child = Completed)
              (subtasks parent)) = 2"
      by (intro two_of_four) simp_all
    with h show "progressRatio (taskProgress
             (taskStates (handleAction Complete nb (handleAction Complete na s))) parent)
           = Some (1 / 2)"
      unfolding progressRatio_taskProgress [OF ne] by simp
  qed
  from c1 c2 c3 c4 c5 c6 show ?thesis by (intro conjI)
qed

lemmas four_defs = fourParent_def fourApp_def firstOfFour_def thirdOfFour_def sampleApp_def

theorem complete_toggles_target_and_progress_ratio_witness:
  "length (subtasks fourParent) = 4
   \<and> distinct (map tid (subtasks fourParent))
   \<and> list_all (\<lambda>c. stateOf (taskStates fourApp) c \<noteq> Completed) (subtasks fourParent)
   \<and> hb_task firstOfFour \<in> set (subtasks fourParent)
   \<and> hb_task thirdOfFour \<in> set (subtasks fourParent)
   \<and> tid (hb_task firstOfFour) \<noteq> tid (hb_task thirdOfFour)
   \<and> progressRatio (taskProgress
         (taskStates (handleAction Complete thirdOfFour (handleAction Complete firstOfFour fourApp)))
         fourParent) = Some (1 / 2)
   \<and> stateOf (taskStates (handleAction Complete firstOfFour fourApp)) (Task 11 [] []) = Completed
   \<and> stateOf (taskStates (handleAction Complete firstOfFour fourApp)) (Task 12 [] []) = Default
   \<and> stateOf (taskStates (handleAction Complete firstOfFour (handleAction Complete firstOfFour fourApp)))
        (Task 11 [] []) = Default
   \<and> map (\<lambda>pn. (tid (pn_task pn), progressRatio (pn_progress pn)))
        (pendingNodes (renderLayout
           (taskStates (handleAction Complete thirdOfFour (handleAction Complete firstOfFour fourApp)))
           None 1 1000 (rootTask fourApp)))
       = [(10, Some (1 / 2)), (11, None), (12, None), (13, None), (14, None)]"
proof -
  have hyps: "length (subtasks fourParent) = 4 \<and> distinct (map tid (subtasks fourParent))
        \<and> (\<forall>c \<in> set (subtasks fourParent). stateOf (taskStates fourApp) c \<noteq> Completed)
        \<and> hb_task firstOfFour \<in> set (subtasks fourParent)
        \<and> hb_task thirdOfFour \<in> set (subtasks fourParent)
        \<and> tid (hb_task firstOfFour) \<noteq> tid (hb_task thirdOfFour)"
    by (simp add: four_defs stateOf_def)
  have toggles: "stateOf (taskStates (handleAction Complete firstOfFour fourApp)) (Task 11 [] []) = Completed
   \<and> stateOf (taskStates (handleAction Complete firstOfFour fourApp)) (Task 12 [] []) = Default
   \<and> stateOf (taskStates (handleAction Complete firstOfFour (handleAction Complete firstOfFour fourApp)))
        (Task 11 [] []) = Default"
    by (simp add: four_defs stateOf_def handleAction_def)
  have drawn: "map (\<lambda>pn. (tid (pn_task pn), progressRatio (pn_progress pn)))
        (pendingNodes (renderLayout
           (taskStates (handleAction Complete thirdOfFour (handleAction Complete firstOfFour fourApp)))
           None 1 1000 (rootTask fourApp)))
       = [(10, Some (1 / 2)), (11, None), (12, None), (13, None), (14, None)]"
    by code_simp
  from complete_toggles_target_and_progress_ratio
    [where node = firstOfFour and s = fourApp and parent = fourParent
       and na = firstOfFour and nb = thirdOfFour]
  have "progressRatio (taskProgress
         (taskStates (handleAction Complete thirdOfFour (handleAction Complete firstOfFour fourApp)))
         fourParent) = Some (1 / 2)"
    using hyps by blast
  moreover have "list_all (\<lambda>c. stateOf (taskStates fourApp) c \<noteq> Completed) (subtasks fourParent)"
    using hyps unfolding list_all_iff by blast
  ultimately show ?thesis using hyps toggles drawn by blast
qed

subsection \<open>Deleting a task\<close>

lemma deleteTask_confined:
  assumes tree: "strictTree (rootTask s)"
    and parent: "hb_parent node = Some p"
    and live: "findTask (tid p) (rootTask s) = Some p"
    and child: "hb_task node \<in> set (subtasks p)"
  shows "(\<forall>j. j \<notin> set (ids t) \<longrightarrow> setTaskStateRecursive t state st j = st j)
       \<and> (\<forall>j. j \<notin> set (ids t) \<longrightarrow> clearTaskStateRecursive t st j = st j)
       \<and> (\<exists>before after.
             map tid (subtasks p) = before @ [tid (hb_task node)] @ after
           \<and> objectOf (rootTask (deleteTask node s)) (tid p) = Some (label p, before @ after))
       \<and> (\<forall>j. j \<noteq> tid p \<and> j \<notin> set (ids (hb_task node)) \<longrightarrow>
             objectOf (rootTask (deleteTask node s)) j = objectOf (rootTask s) j)
       \<and> (\<forall>j. j \<notin> set (ids (hb_task node)) \<longrightarrow>
             taskStates (deleteTask node s) j = taskStates s j)
       \<and> (\<forall>j \<in> set (ids (hb_task node)). taskStates (deleteTask node s) j = None)"
proof -
  let ?c = "tid (hb_task node)"
  let ?root' = "assignSubtasks (tid p) (filter (\<lambda>child. tid child \<noteq> ?c)) (rootTask s)"
  have root': "rootTask (deleteTask node s) = ?root'"
    and states': "taskStates (deleteTask node s) = clearTaskStateRecursive (hb_task node) (taskStates s)"
    using parent by (simp_all add: deleteTask_def)
  from findTask_Some(1) [OF live] have p_in: "p \<in> set (nodes (rootTask s))" by simp
  with tree have "strictTree p" by (rule strictTree_subtree)
  then have dist: "distinct (map tid (subtasks p))"
    by (cases p) (simp add: strictTree_def ids_Task distinct_child_ids)
  from child have mem: "?c \<in> set (map tid (subtasks p))" by simp
  from filter_removes_one [OF dist mem] obtain before after where
    split: "map tid (subtasks p) = before @ [?c] @ after"
    and filt: "filter (\<lambda>j. j \<noteq> ?c) (map tid (subtasks p)) = before @ after"
    by blast
  have "objectOf ?root' (tid p) = Some (label p, before @ after)"
    using objectOf_assignSubtasks_filter_self(1) [OF live, of ?c] by (simp only: filt)
  with split have c3: "\<exists>before after.
             map tid (subtasks p) = before @ [?c] @ after
           \<and> objectOf (rootTask (deleteTask node s)) (tid p) = Some (label p, before @ after)"
    unfolding root' by blast
  from child have t_in_p: "hb_task node \<in> set (nodes p)" by (rule child_in_nodes)
  with p_in have t_in: "hb_task node \<in> set (nodes (rootTask s))" using nodes_trans by blast
  have c4: "\<forall>j. j \<noteq> tid p \<and> j \<notin> set (ids (hb_task node)) \<longrightarrow>
             objectOf (rootTask (deleteTask node s)) j = objectOf (rootTask s) j"
  proof (intro allI impI)
    fix j assume j: "j \<noteq> tid p \<and> j \<notin> set (ids (hb_task node))"
    have "\<forall>x \<in> set (nodes (rootTask s)). tid x = ?c \<longrightarrow> j \<notin> set (ids x)"
    proof (intro ballI impI)
      fix x assume xin: "x \<in> set (nodes (rootTask s))" and xc: "tid x = ?c"
      from strictTree_inj [OF tree xin t_in xc] have "x = hb_task node" .
      with j show "j \<notin> set (ids x)" by simp
    qed
    with j show "objectOf (rootTask (deleteTask node s)) j = objectOf (rootTask s) j"
      unfolding root' by (simp add: objectOf_assignSubtasks_filter_other)
  qed
  have c1: "\<forall>j. j \<notin> set (ids t) \<longrightarrow> setTaskStateRecursive t state st j = st j"
    by (simp add: setTaskStateRecursive_apply)
  have c2: "\<forall>j. j \<notin> set (ids t) \<longrightarrow> clearTaskStateRecursive t st j = st j"
    by (simp add: clearTaskStateRecursive_apply)
  have c5: "\<forall>j. j \<notin> set (ids (hb_task node)) \<longrightarrow>
             taskStates (deleteTask node s) j = taskStates s j"
    by (simp add: states' clearTaskStateRecursive_apply)
  have c6: "\<forall>j \<in> set (ids (hb_task node)). taskStates (deleteTask node s) j = None"
    by (simp add: states' clearTaskStateRecursive_apply)
  from c1 c2 c3 c4 c5 c6 show ?thesis by (intro conjI)
qed

text \<open>
  Claim C10.  \<open>setTaskStateRecursive\<close> and \<open>clearTaskStateRecursive\<close> leave the state map
  as it was at every identity outside the subtree of their task.  For every hitbox that a
  render of the current tree has built, the tree being strict, \<open>deleteTask\<close> turns the
  child sequence \<open>before @ [task] @ after\<close> of the hitbox's parent into \<open>before @ after\<close>,
  leaves the fields of every other object outside the deleted subtree as they were, changes
  no state outside the deleted subtree and clears every state inside it.
\<close>

theorem recursive_operations_confined_to_subtree:
  assumes tree: "strictTree (rootTask s)"
    and node: "node \<in> set (drawPendingNodes
                  (renderLayout (taskStates s) starts progress viewportWidth (rootTask s)))"
  shows "(\<forall>j. j \<notin> set (ids t) \<longrightarrow> setTaskStateRecursive t state st j = st j)
       \<and> (\<forall>j. j \<notin> set (ids t) \<longrightarrow> clearTaskStateRecursive t st j = st j)
       \<and> (\<exists>p before after.
             hb_parent node = Some p
           \<and> objectOf (rootTask s) (tid p) = Some (label p, before @ [tid (hb_task node)] @ after)
           \<and> objectOf (rootTask (deleteTask node s)) (tid p) = Some (label p, before @ after)
           \<and> (\<forall>j. j \<noteq> tid p \<and> j \<notin> set (ids (hb_task node)) \<longrightarrow>
                 objectOf (rootTask (deleteTask node s)) j = objectOf (rootTask s) j))
       \<and> (\<forall>j. j \<notin> set (ids (hb_task node)) \<longrightarrow>
             taskStates (deleteTask node s) j = taskStates s j)
       \<and> (\<forall>j \<in> set (ids (hb_task node)). taskStates (deleteTask node s) j = None)"
proof -
  from rendered_hitboxes_live [OF tree node]
  obtain p where parent: "hb_parent node = Some p"
    and live: "findTask (tid p) (rootTask s) = Some p"
    and child: "hb_task node \<in> set (subtasks p)" by blast
  from deleteTask_confined [OF tree parent live child, of t state st]
  obtain before after where
    split: "map tid (subtasks p) = before @ [tid (hb_task node)] @ after"
    and after: "objectOf (rootTask (deleteTask node s)) (tid p) = Some (label p, before @ after)"
    and rest: "\<forall>j. j \<noteq> tid p \<and> j \<notin> set (ids (hb_task node)) \<longrightarrow>
             objectOf (rootTask (deleteTask node s)) j = objectOf (rootTask s) j"
    and c1: "\<forall>j. j \<notin> set (ids t) \<longrightarrow> setTaskStateRecursive t state st j = st j"
    and c2: "\<forall>j. j \<notin> set (ids t) \<longrightarrow> clearTaskStateRecursive t st j = st j"
    and c5: "\<forall>j. j \<notin> set (ids (hb_task node)) \<longrightarrow>
             taskStates (deleteTask node s) j = taskStates s j"
    and c6: "\<forall>j \<in> set (ids (hb_task node)). taskStates (deleteTask node s) j = None"
    by blast
  have before': "objectOf (rootTask s) (tid p) = Some (label p, before @ [tid (hb_task node)] @ after)"
    using live split by (simp add: objectOf_def fieldsOf_def)
  from parent before' after rest have c3: "\<exists>p before after.
             hb_parent node = Some p
           \<and> objectOf (rootTask s) (tid p) = Some (label p, before @ [tid (hb_task node)] @ after)
           \<and> objectOf (rootTask (deleteTask node s)) (tid p) = Some (label p, before @ after)
           \<and> (\<forall>j. j \<noteq> tid p \<and> j \<notin> set (ids (hb_task node)) \<longrightarrow>
                 objectOf (rootTask (deleteTask node s)) j = objectOf (rootTask s) j)"
    by blast
  from c1 c2 c3 c5 c6 show ?thesis by (intro conjI)
qed

theorem recursive_operations_confined_to_subtree_witness:
  "strictTree (rootTask sampleApp)
   \<and> leafNode \<in> set (drawPendingNodes
         (renderLayout (taskStates sampleApp) None 1 1000 (rootTask sampleApp)))
   \<and> objectOf (rootTask sampleApp) 0 = Some ([], [1, 4, 5])
   \<and> objectOf (rootTask (deleteTask leafNode sampleApp)) 0 = Some ([], [1, 5])
   \<and> objectOf (rootTask (deleteTask leafNode sampleApp)) 1 = Some ([], [2, 3])
   \<and> setTaskStateRecursive (hb_task branchNode) Cancelled Map.empty 4 = None
   \<and> setTaskStateRecursive (hb_task branchNode) Cancelled Map.empty 3 = Some Cancelled"
proof -
  have tree: "strictTree (rootTask sampleApp)" by (simp add: sample_defs strictTree_def ids_def)
  have node: "leafNode \<in> set (drawPendingNodes
         (renderLayout (taskStates sampleApp) None 1 1000 (rootTask sampleApp)))"
    using hitboxes_sample by (simp add: sampleApp_def)
  from recursive_operations_confined_to_subtree
    [OF tree node, of "hb_task branchNode" Cancelled Map.empty]
  show ?thesis
    using tree node
    by (simp add: sample_defs objectOf_def fieldsOf_def deleteTask_def ids_def)
qed

subsection \<open>Label editing\<close>

lemma finishEditingTask_cases:
  assumes "editingTask s = Some task" and "editingInput s = Some v"
  shows "finishEditingTask commit s =
     (if (if commit then trim v = [] else trim (editingInitialLabel s) = [])
           \<and> editingParentForRemoval s \<noteq> None
      then removeTaskFromParent task (editingParentForRemoval s) s
      else s\<lparr>rootTask := assignLabel (tid task)
                 (if commit \<and> trim v \<noteq> [] then trim v else editingInitialLabel s) (rootTask s)\<rparr>)
     \<lparr>editingTask := None, editingParentForRemoval := None, editingInitialLabel := []\<rparr>"
  using assms by (auto simp: finishEditingTask_def Let_def)

lemma dropWhile_rev_prefix:
  "xs \<noteq> [] \<Longrightarrow> \<not> P (hd xs) \<Longrightarrow> rev (dropWhile P (rev xs)) \<noteq> [] \<and> hd (rev (dropWhile P (rev xs))) = hd xs"
proof (induction xs rule: rev_induct)
  case Nil
  then show ?case by simp
next
  case (snoc x xs)
  show ?case
  proof (cases "xs = []")
    case True
    with snoc.prems show ?thesis by simp
  next
    case False
    with snoc.prems have h: "\<not> P (hd xs)" by simp
    from snoc.IH [OF False h] False show ?thesis by (cases "P x") simp_all
  qed
qed

lemma trim_trim: "trim (trim v) = trim v"
proof (cases "trim v = []")
  case True
  have "trim [] = []" by (simp add: trim_def)
  with True show ?thesis by simp
next
  case False
  let ?u = "dropWhile isWhiteSpace v"
  have u: "?u \<noteq> []"
  proof
    assume e: "?u = []"
    have "trim v = rev (dropWhile isWhiteSpace (rev ?u))" by (simp only: trim_def)
    also have "\<dots> = []" unfolding e by simp
    finally show False using False by simp
  qed
  then have hu: "\<not> isWhiteSpace (hd ?u)" by (rule hd_dropWhile)
  from dropWhile_rev_prefix [where P = isWhiteSpace and xs = "?u", OF u hu]
  have hd: "\<not> isWhiteSpace (hd (trim v))" using hu by (simp add: trim_def)
  from False hd have d1: "dropWhile isWhiteSpace (trim v) = trim v"
    by (cases "trim v") simp_all
  have "dropWhile isWhiteSpace (rev (trim v)) = rev (trim v)"
    by (simp add: trim_def dropWhile_idem)
  then show ?thesis unfolding trim_def [of "trim v"] d1 by simp
qed

lemma settledLabel_trim: "settledLabel (trim v)"
  by (simp add: settledLabel_def trim_trim)

lemma settledLabel_empty: "settledLabel []"
  by (simp add: settledLabel_def)

lemma initialRootTask_settled: "list_all (\<lambda>x. settledLabel (label x)) (nodes initialRootTask)"
  by (simp add: initialRootTask_def utf16_def settledLabel_def trim_def isWhiteSpace_def)

lemma nodes_assignLabel:
  "y \<in> set (nodes (assignLabel r v t)) \<Longrightarrow>
     (tid y = r \<and> label y = v) \<or> (\<exists>x \<in> set (nodes t). tid x = tid y \<and> label x = label y)"
proof (induction t)
  case (Task i l ts)
  show ?case
  proof (cases "i = r")
    case True
    with Task.prems show ?thesis by auto
  next
    case False
    show ?thesis
    proof (cases "y = Task i l (map (assignLabel r v) ts)")
      case True
      then show ?thesis by auto
    next
      case no: False
      with False Task.prems obtain c where c: "c \<in> set ts" and y: "y \<in> set (nodes (assignLabel r v c))"
        by auto
      from Task.IH [OF c y] c show ?thesis by auto
    qed
  qed
qed

lemma nodes_assignSubtasks_filter:
  "y \<in> set (nodes (assignSubtasks r (filter P) t)) \<Longrightarrow>
     \<exists>x \<in> set (nodes t). tid x = tid y \<and> label x = label y"
proof (induction t)
  case (Task i l ts)
  show ?case
  proof (cases "i = r")
    case True
    with Task.prems show ?thesis by auto
  next
    case False
    show ?thesis
    proof (cases "y = Task i l (map (assignSubtasks r (filter P)) ts)")
      case True
      then show ?thesis by auto
    next
      case no: False
      with False Task.prems obtain c where c: "c \<in> set ts"
        and y: "y \<in> set (nodes (assignSubtasks r (filter P) c))" by auto
      from Task.IH [OF c y] c show ?thesis by auto
    qed
  qed
qed

lemma startEditingTask_settled:
  "settledLabel (label task) \<Longrightarrow>
     settledLabel (editingInitialLabel (startEditingTask task parent s))"
  "editingInitialLabel (onEditInput v s) = editingInitialLabel s"
  by (simp_all add: startEditingTask_def onEditInput_def split: option.splits)

lemma renderPending_add_settled:
  "pendingHoverTask s = None \<Longrightarrow>
     editingInitialLabel (renderPending nodeHitboxes (handleAction Add node s)) = []"
  by (simp add: renderPending_def handleAction_def startEditingTask_def Let_def
      split: option.splits)

lemma finishEditingTask_labels:
  assumes editing: "editingTask s = Some task" and input: "editingInput s = Some v"
    and settled: "settledLabel (editingInitialLabel s)"
    and y: "y \<in> set (nodes (rootTask (finishEditingTask commit s)))"
  shows "settledLabel (label y)
       \<or> (\<exists>x \<in> set (nodes (rootTask s)). tid x = tid y \<and> label x = label y)"
proof -
  note fin = finishEditingTask_cases [OF editing input, of commit]
  show ?thesis
  proof (cases "(if commit then trim v = [] else trim (editingInitialLabel s) = [])
           \<and> editingParentForRemoval s \<noteq> None")
    case True
    then obtain p where p: "editingParentForRemoval s = Some p" by auto
    have "rootTask (finishEditingTask commit s) = assignSubtasks (tid p)
        (filter (\<lambda>child. tid child \<noteq> tid task)) (rootTask s)"
      unfolding fin using True by (auto simp: removeTaskFromParent_def p split: if_splits)
    with y have "y \<in> set (nodes (assignSubtasks (tid p)
        (filter (\<lambda>child. tid child \<noteq> tid task)) (rootTask s)))" by simp
    from nodes_assignSubtasks_filter [OF this] show ?thesis by blast
  next
    case False
    let ?l = "if commit \<and> trim v \<noteq> [] then trim v else editingInitialLabel s"
    have "rootTask (finishEditingTask commit s) = assignLabel (tid task) ?l (rootTask s)"
      unfolding fin using False by (auto split: if_splits)
    with y have "y \<in> set (nodes (assignLabel (tid task) ?l (rootTask s)))" by simp
    from nodes_assignLabel [OF this]
    have "label y = ?l \<or> (\<exists>x \<in> set (nodes (rootTask s)). tid x = tid y \<and> label x = label y)"
      by blast
    moreover have "settledLabel ?l" using settled by (simp add: settledLabel_trim)
    ultimately show ?thesis by auto
  qed
qed

text \<open>
  Claim C9.  \<open>finishEditingTask\<close> while a task is edited and the pre-edit label is settled,
  as it is when the edit was started on a new task or on a task whose label the module
  started with or an earlier edit assigned.  On commit with an input that is not blank
  after trimming, the trimmed input becomes the task's label.  On commit with an input that
  is blank after trimming, and on cancel with an empty pre-edit label, a task with a parent
  is removed from the child sequence that the parent has in the tree, with the states below
  the task cleared.  In the remaining cases (commit with a blank input and no parent;
  cancel with a pre-edit label that is not empty or with no parent) the label becomes the
  pre-edit label.  No other object outside a removed subtree changes, and editing ends.
\<close>

theorem finishEditingTask_outcomes:
  assumes editing: "editingTask s = Some task" and input: "editingInput s = Some v"
    and settled: "settledLabel (editingInitialLabel s)"
  shows
    "(commit \<and> trim v \<noteq> [] \<longrightarrow>
        taskStates (finishEditingTask commit s) = taskStates s
      \<and> (\<forall>x. findTask (tid task) (rootTask s) = Some x \<longrightarrow>
            objectOf (rootTask (finishEditingTask commit s)) (tid task)
              = Some (trim v, map tid (subtasks x)))
      \<and> (\<forall>j. j \<noteq> tid task \<longrightarrow>
            objectOf (rootTask (finishEditingTask commit s)) j = objectOf (rootTask s) j))
   \<and> ((if commit then trim v = [] else editingInitialLabel s = [])
        \<and> editingParentForRemoval s = Some p \<longrightarrow>
        taskStates (finishEditingTask commit s) = clearTaskStateRecursive task (taskStates s)
      \<and> (\<forall>x. findTask (tid p) (rootTask s) = Some x \<longrightarrow>
            objectOf (rootTask (finishEditingTask commit s)) (tid p)
              = Some (label x, filter (\<lambda>j. j \<noteq> tid task) (map tid (subtasks x))))
      \<and> (\<forall>j. j \<noteq> tid p \<and> (\<forall>x \<in> set (nodes (rootTask s)). tid x = tid task \<longrightarrow> j \<notin> set (ids x)) \<longrightarrow>
            objectOf (rootTask (finishEditingTask commit s)) j = objectOf (rootTask s) j))
   \<and> ((commit \<and> trim v = [] \<and> editingParentForRemoval s = None)
        \<or> (\<not> commit \<and> \<not> (editingInitialLabel s = [] \<and> editingParentForRemoval s \<noteq> None)) \<longrightarrow>
        taskStates (finishEditingTask commit s) = taskStates s
      \<and> (\<forall>x. findTask (tid task) (rootTask s) = Some x \<longrightarrow>
            objectOf (rootTask (finishEditingTask commit s)) (tid task)
              = Some (editingInitialLabel s, map tid (subtasks x)))
      \<and> (\<forall>j. j \<noteq> tid task \<longrightarrow>
            objectOf (rootTask (finishEditingTask commit s)) j = objectOf (rootTask s) j))
   \<and> editingTask (finishEditingTask commit s) = None
   \<and> editingParentForRemoval (finishEditingTask commit s) = None
   \<and> editingInitialLabel (finishEditingTask commit s) = []"
proof -
  note fin = finishEditingTask_cases [OF editing input, of commit]
  from settled have blank: "(trim (editingInitialLabel s) = []) = (editingInitialLabel s = [])"
    by (auto simp: settledLabel_def trim_def)
  have c1: "commit \<and> trim v \<noteq> [] \<longrightarrow>
        taskStates (finishEditingTask commit s) = taskStates s
      \<and> (\<forall>x. findTask (tid task) (rootTask s) = Some x \<longrightarrow>
            objectOf (rootTask (finishEditingTask commit s)) (tid task)
              = Some (trim v, map tid (subtasks x)))
      \<and> (\<forall>j. j \<noteq> tid task \<longrightarrow>
            objectOf (rootTask (finishEditingTask commit s)) j = objectOf (rootTask s) j)"
    unfolding fin by (simp add: objectOf_assignLabel_self(1) objectOf_assignLabel_other)
  have c2: "(if commit then trim v = [] else editingInitialLabel s = [])
        \<and> editingParentForRemoval s = Some p \<longrightarrow>
        taskStates (finishEditingTask commit s) = clearTaskStateRecursive task (taskStates s)
      \<and> (\<forall>x. findTask (tid p) (rootTask s) = Some x \<longrightarrow>
            objectOf (rootTask (finishEditingTask commit s)) (tid p)
              = Some (label x, filter (\<lambda>j. j \<noteq> tid task) (map tid (subtasks x))))
      \<and> (\<forall>j. j \<noteq> tid p \<and> (\<forall>x \<in> set (nodes (rootTask s)). tid x = tid task \<longrightarrow> j \<notin> set (ids x)) \<longrightarrow>
            objectOf (rootTask (finishEditingTask commit s)) j = objectOf (rootTask s) j)"
    unfolding fin blank
    by (simp add: removeTaskFromParent_def objectOf_assignSubtasks_filter_self(1)
        objectOf_assignSubtasks_filter_other)
  have c3: "(commit \<and> trim v = [] \<and> editingParentForRemoval s = None)
        \<or> (\<not> commit \<and> \<not> (editingInitialLabel s = [] \<and> editingParentForRemoval s \<noteq> None)) \<longrightarrow>
        taskStates (finishEditingTask commit s) = taskStates s
      \<and> (\<forall>x. findTask (tid task) (rootTask s) = Some x \<longrightarrow>
            objectOf (rootTask (finishEditingTask commit s)) (tid task)
              = Some (editingInitialLabel s, map tid (subtasks x)))
      \<and> (\<forall>j. j \<noteq> tid task \<longrightarrow>
            objectOf (rootTask (finishEditingTask commit s)) j = objectOf (rootTask s) j)"
    unfolding fin blank
    by (auto simp: objectOf_assignLabel_self(1) objectOf_assignLabel_other)
  have c4: "editingTask (finishEditingTask commit s) = None
   \<and> editingParentForRemoval (finishEditingTask commit s) = None
   \<and> editingInitialLabel (finishEditingTask commit s) = []"
    unfolding fin by simp
  from c1 c2 c3 c4 show ?thesis by (intro conjI) simp_all
qed

lemma added_fields:
  "editingTask addedEdit = Some (Task 6 [] [])"
  "editingParentForRemoval addedEdit = Some (Task 4 [] [])"
  "editingInitialLabel addedEdit = []"
  "editingInput addedEdit = Some [0x20]"
  "rootTask addedEdit
     = Task 0 [] [Task 1 [] [Task 2 [] [], Task 3 [] []], Task 4 [] [Task 6 [0x20] []], Task 5 [] []]"
  by code_simp+

lemma edit_fields:
  "editingTask paddedEdit = Some (Task 1 [0x61] [])"
  "editingInput paddedEdit = Some [0x20, 0x78, 0x20]"
  "editingInitialLabel paddedEdit = [0x61]"
  "rootTask paddedEdit = Task 0 [] [Task 1 [0x20, 0x78, 0x20] [], Task 2 [0x62] []]"
  "editingTask blankInputEdit = Some (Task 2 [0x62] [])"
  "editingInput blankInputEdit = Some [0x20, 0x09]"
  "editingInitialLabel blankInputEdit = [0x62]"
  "editingParentForRemoval blankInputEdit = Some editRoot"
  "rootTask blankInputEdit = Task 0 [] [Task 1 [0x61] [], Task 2 [0x20, 0x09] []]"
  "editingTask typedEdit = Some (Task 2 [0x62] [])"
  "editingInput typedEdit = Some [0x78]"
  "editingInitialLabel typedEdit = [0x62]"
  "editingParentForRemoval typedEdit = Some editRoot"
  "rootTask typedEdit = Task 0 [] [Task 1 [0x61] [], Task 2 [0x78] []]"
  by (simp_all add: paddedEdit_def blankInputEdit_def typedEdit_def editApp_def editRoot_def
      sampleApp_def onEditInput_def startEditingTask_def)

lemma trim_samples:
  "trim [0x20, 0x78, 0x20] = [0x78]" "trim [0x20] = []" "trim [0x20, 0x09] = []"
  "trim [0x62] = [0x62]" "trim [0x61] = [0x61]" "trim [0x78] = [0x78]" "trim [] = []"
  by (simp_all add: trim_def isWhiteSpace_def)

theorem finishEditingTask_outcomes_witness:
  "editingTask paddedEdit = Some (Task 1 [0x61] [])
   \<and> editingInput paddedEdit = Some [0x20, 0x78, 0x20]
   \<and> settledLabel (editingInitialLabel paddedEdit)
   \<and> objectOf (rootTask (finishEditingTask True paddedEdit)) 1 = Some ([0x78], [])
   \<and> objectOf (rootTask (finishEditingTask True paddedEdit)) 2 = Some ([0x62], [])
   \<and> editingInput blankInputEdit = Some [0x20, 0x09]
   \<and> objectOf (rootTask blankInputEdit) 0 = Some ([], [1, 2])
   \<and> objectOf (rootTask (finishEditingTask True blankInputEdit)) 0 = Some ([], [1])
   \<and> objectOf (rootTask (finishEditingTask True blankInputEdit)) 1 = Some ([0x61], [])
   \<and> editingInitialLabel typedEdit = [0x62]
   \<and> objectOf (rootTask typedEdit) 2 = Some ([0x78], [])
   \<and> objectOf (rootTask (finishEditingTask False typedEdit)) 2 = Some ([0x62], [])
   \<and> objectOf (rootTask (finishEditingTask False typedEdit)) 0 = Some ([], [1, 2])
   \<and> editingTask addedEdit = Some (Task 6 [] [])
   \<and> editingParentForRemoval addedEdit = Some (Task 4 [] [])
   \<and> editingInitialLabel addedEdit = []
   \<and> objectOf (rootTask addedEdit) 4 = Some ([], [6])
   \<and> objectOf (rootTask addedEdit) 6 = Some ([0x20], [])
   \<and> objectOf (rootTask (finishEditingTask False addedEdit)) 4 = Some ([], [])
   \<and> objectOf (rootTask (finishEditingTask True addedEdit)) 4 = Some ([], [])
   \<and> objectOf (rootTask (finishEditingTask False addedEdit)) 1 = Some ([], [2, 3])"
proof -
  note e = edit_fields and a = added_fields
  have s1: "settledLabel (editingInitialLabel paddedEdit)"
    and s2: "settledLabel (editingInitialLabel blankInputEdit)"
    and s3: "settledLabel (editingInitialLabel typedEdit)"
    and s4: "settledLabel (editingInitialLabel addedEdit)"
    by (simp_all add: e a settledLabel_def trim_samples)
  from finishEditingTask_outcomes [OF e(1) e(2) s1, of True]
  have p1: "objectOf (rootTask (finishEditingTask True paddedEdit)) 1 = Some ([0x78], [])"
    and p2: "objectOf (rootTask (finishEditingTask True paddedEdit)) 2 = Some ([0x62], [])"
    by (simp_all add: e trim_samples objectOf_def fieldsOf_def)
  from finishEditingTask_outcomes [OF e(5) e(6) s2, of True editRoot]
  have b1: "objectOf (rootTask (finishEditingTask True blankInputEdit)) 0 = Some ([], [1])"
    and b2: "objectOf (rootTask (finishEditingTask True blankInputEdit)) 1 = Some ([0x61], [])"
    by (simp_all add: e trim_samples editRoot_def objectOf_def fieldsOf_def ids_def)
  from finishEditingTask_outcomes [OF e(10) e(11) s3, of False]
  have t1: "objectOf (rootTask (finishEditingTask False typedEdit)) 2 = Some ([0x62], [])"
    and t2: "objectOf (rootTask (finishEditingTask False typedEdit)) 0 = Some ([], [1, 2])"
    by (simp_all add: e trim_samples objectOf_def fieldsOf_def)
  from finishEditingTask_outcomes [OF a(1) a(4) s4, of False "Task 4 [] []"]
  have a1: "objectOf (rootTask (finishEditingTask False addedEdit)) 4 = Some ([], [])"
    and a3: "objectOf (rootTask (finishEditingTask False addedEdit)) 1 = Some ([], [2, 3])"
    by (simp_all add: a objectOf_def fieldsOf_def ids_def)
  from finishEditingTask_outcomes [OF a(1) a(4) s4, of True "Task 4 [] []"]
  have a2: "objectOf (rootTask (finishEditingTask True addedEdit)) 4 = Some ([], [])"
    by (simp add: a trim_samples objectOf_def fieldsOf_def)
  have o: "objectOf (rootTask blankInputEdit) 0 = Some ([], [1, 2])"
    "objectOf (rootTask typedEdit) 2 = Some ([0x78], [])"
    "objectOf (rootTask addedEdit) 4 = Some ([], [6])"
    "objectOf (rootTask addedEdit) 6 = Some ([0x20], [])"
    by (simp_all add: e a objectOf_def fieldsOf_def)
  from e a s1 p1 p2 b1 b2 t1 t2 a1 a2 a3 o show ?thesis by simp
qed

subsection \<open>Viewport\<close>

lemma clamp_range: "lo \<le> hi \<Longrightarrow> lo \<le> clamp x lo hi \<and> clamp x lo hi \<le> hi"
  by (simp add: clamp_def)

lemma zoom_consts: "ZOOM_MIN \<le> ZOOM_MAX" "0 < ZOOM_MIN"
  by (simp_all add: ZOOM_MIN_def ZOOM_MAX_def)

lemma schedule_fields [simp]:
  "zoom (scheduleViewportAnimation v) = zoom v"
  "zoomTarget (scheduleViewportAnimation v) = zoomTarget v"
  "panX (scheduleViewportAnimation v) = panX v"
  "panY (scheduleViewportAnimation v) = panY v"
  "panTargetX (scheduleViewportAnimation v) = panTargetX v"
  "panTargetY (scheduleViewportAnimation v) = panTargetY v"
  "pressedKeys (scheduleViewportAnimation v) = pressedKeys v"
  "lastKeyboardAnimationTime (scheduleViewportAnimation v) = lastKeyboardAnimationTime v"
  by (simp_all add: scheduleViewportAnimation_def)

lemma zoomInRange_schedule [simp]: "zoomInRange (scheduleViewportAnimation v) = zoomInRange v"
  by (simp add: zoomInRange_def)

lemma onWheel_inRange: "zoomInRange v \<Longrightarrow> zoomInRange (onWheel cx cy deltaY v)"
  using clamp_range [OF zoom_consts(1)]
  by (simp add: onWheel_def Let_def zoomInRange_def)

lemma adjustZoom_inRange: "zoomInRange v \<Longrightarrow> zoomInRange (adjustZoomByKeyboard factor v)"
  using clamp_range [OF zoom_consts(1)]
  by (simp add: adjustZoomByKeyboard_def Let_def zoomInRange_def)

lemma step_inRange: "zoomInRange v \<Longrightarrow> zoomInRange (stepViewportAnimation v)"
proof -
  assume r: "zoomInRange v"
  let ?z = "zoom v + (zoomTarget v - zoom v) * ZOOM_ANIMATION_FACTOR"
  have eq: "?z = (85 / 100) * zoom v + (15 / 100) * zoomTarget v"
    by (simp add: ZOOM_ANIMATION_FACTOR_def field_simps)
  from r have "ZOOM_MIN \<le> ?z \<and> ?z \<le> ZOOM_MAX"
    unfolding eq zoomInRange_def by auto
  with r show ?thesis
    by (simp add: stepViewportAnimation_def Let_def zoomInRange_def)
qed

lemma keyboard_keeps_zoom:
  "zoom (onKeyDown editing modifier rootHovered key now v) = zoom v"
  "zoomTarget (onKeyDown editing modifier rootHovered key now v) = zoomTarget v"
  "zoom (onKeyUp editing key v) = zoom v" "zoomTarget (onKeyUp editing key v) = zoomTarget v"
  "zoom (onWindowBlur v) = zoom v" "zoomTarget (onWindowBlur v) = zoomTarget v"
  "zoom (stepKeyboardAnimation time v) = zoom v"
  "zoomTarget (stepKeyboardAnimation time v) = zoomTarget v"
  by (simp_all add: onKeyDown_def onKeyUp_def onWindowBlur_def stepKeyboardAnimation_def
      startKeyboardAnimation_def stopKeyboardAnimation_def Let_def)

lemma viewportStep_inRange: "zoomInRange v \<Longrightarrow> zoomInRange (viewportStep e v)"
proof -
  assume r: "zoomInRange v"
  show ?thesis
  proof (cases e)
    case (Wheel cx cy d)
    with r show ?thesis by (simp add: onWheel_inRange)
  next
    case (KeyboardZoom f)
    with r show ?thesis by (simp add: adjustZoom_inRange)
  next
    case (PanBy dx dy)
    with r show ?thesis by (simp add: panViewport_def zoomInRange_def)
  next
    case AnimationFrame
    with r show ?thesis by (simp add: step_inRange)
  next
    case (DragMove a b c d)
    with r show ?thesis by (simp add: onDragMove_def zoomInRange_def)
  next
    case (KeyDown editing modifier rootHovered k n)
    with r show ?thesis by (simp add: zoomInRange_def keyboard_keeps_zoom)
  next
    case (KeyUp editing k)
    with r show ?thesis by (simp add: zoomInRange_def keyboard_keeps_zoom)
  next
    case WindowBlur
    with r show ?thesis by (simp add: zoomInRange_def keyboard_keeps_zoom)
  next
    case (KeyboardFrame t)
    with r show ?thesis by (simp add: zoomInRange_def keyboard_keeps_zoom)
  next
    case (Resize w h)
    with r show ?thesis by (simp add: zoomInRange_def)
  qed
qed

lemma initial_fields:
  "zoom (initialViewport width height tree) = 1"
  "zoomTarget (initialViewport width height tree) = 1"
  "pressedKeys (initialViewport width height tree) = {}"
  "keyboardAnimationHandle (initialViewport width height tree) = False"
  by (simp_all add: initialViewport_def Let_def)

lemma initial_inRange: "zoomInRange (initialViewport width height tree)"
  by (simp add: initial_fields zoomInRange_def ZOOM_MIN_def ZOOM_MAX_def)

lemma fold_inRange: "zoomInRange v \<Longrightarrow> zoomInRange (fold viewportStep events v)"
  by (induction events arbitrary: v) (simp_all add: viewportStep_inRange)

lemma steady_fields:
  "zoom steady = 1" "zoomTarget steady = 1" "panX steady = 0" "panY steady = 20"
  "panTargetX steady = 0" "panTargetY steady = 20"
  by (simp_all add: steady_def onDragMove_def initial_fields)

lemma midPan_fields:
  "zoom midPan = 1" "zoomTarget midPan = 1" "panX midPan = 0" "panY midPan = 0"
  "panTargetX midPan = 100" "panTargetY midPan = 0"
  by (simp_all add: midPan_def onDragMove_def onKeyDown_def startKeyboardAnimation_def
      stepKeyboardAnimation_def initial_fields Let_def KEYBOARD_PAN_SPEED_def)

text \<open>
  Claim C7.  The viewport starts with \<open>zoom\<close> and \<open>zoomTarget\<close> equal to 1, and after any
  sequence of wheel events, keyboard zoom adjustments, pans, animation frames, drag moves,
  key events and resizes both are within \<open>[ZOOM_MIN, ZOOM_MAX]\<close>, that is within
  [0.4, 2.5].  Each of the operations that write \<open>zoom\<close> or \<open>zoomTarget\<close> keeps them in
  that range when they are in it before.
\<close>

theorem zoom_stays_in_range:
  "zoom (initialViewport width height tree) = 1
   \<and> zoomTarget (initialViewport width height tree) = 1
   \<and> ZOOM_MIN = 4 / 10 \<and> ZOOM_MAX = 25 / 10
   \<and> zoomInRange (fold viewportStep events (initialViewport width height tree))
   \<and> (zoomInRange v \<longrightarrow>
        zoomInRange (onWheel canvasX canvasY deltaY v)
      \<and> zoomInRange (adjustZoomByKeyboard factor v)
      \<and> zoomInRange (stepViewportAnimation v)
      \<and> zoomInRange (viewportStep e v))"
  using fold_inRange [OF initial_inRange]
  by (simp add: onWheel_inRange adjustZoom_inRange step_inRange viewportStep_inRange
      initial_fields ZOOM_MIN_def ZOOM_MAX_def)

theorem zoom_stays_in_range_witness:
  "zoomInRange (steady\<lparr>zoomTarget := 2\<rparr>)
   \<and> zoom (stepViewportAnimation (steady\<lparr>zoomTarget := 2\<rparr>)) = 115 / 100
   \<and> zoomInRange (stepViewportAnimation (steady\<lparr>zoomTarget := 2\<rparr>))
   \<and> zoomTarget (adjustZoomByKeyboard 3 (steady\<lparr>zoomTarget := 2\<rparr>)) = 5 / 2
   \<and> zoomInRange (adjustZoomByKeyboard 3 (steady\<lparr>zoomTarget := 2\<rparr>))
   \<and> zoomInRange (fold viewportStep [KeyboardZoom 3, AnimationFrame, DragMove 5 5 0 0, Wheel 1 1 0]
         (initialViewport 1000 800 sampleRoot))"
proof -
  have r: "zoomInRange (steady\<lparr>zoomTarget := 2\<rparr>)"
    by (simp add: zoomInRange_def steady_fields ZOOM_MIN_def ZOOM_MAX_def)
  have z: "zoom (stepViewportAnimation (steady\<lparr>zoomTarget := 2\<rparr>)) = 115 / 100"
    by (simp add: stepViewportAnimation_def steady_fields Let_def VIEWPORT_ANIMATION_EPS_def
        ZOOM_ANIMATION_FACTOR_def)
  have k: "zoomTarget (adjustZoomByKeyboard 3 (steady\<lparr>zoomTarget := 2\<rparr>)) = 5 / 2"
    by (simp add: adjustZoomByKeyboard_def steady_fields Let_def clamp_def ZOOM_MIN_def ZOOM_MAX_def)
  from zoom_stays_in_range [of 1000 800 sampleRoot
      "[KeyboardZoom 3, AnimationFrame, DragMove 5 5 0 0, Wheel 1 1 0]"
      "steady\<lparr>zoomTarget := 2\<rparr>" _ _ _ 3] r z k
  show ?thesis by blast
qed

text \<open>
  Claim C6, as amended.  The wheel handler computes
  \<open>newZoom = clamp (zoom * exp (- deltaY * ZOOM_SENSITIVITY)) ZOOM_MIN ZOOM_MAX\<close>.  When
  \<open>newZoom\<close> differs from the current \<open>zoomTarget\<close>, it sets \<open>zoomTarget\<close> to \<open>newZoom\<close>
  and the pan targets so that the world point under the cursor is kept, in both
  coordinates, and leaves \<open>panX\<close>, \<open>panY\<close> and \<open>zoom\<close> as they are.  When \<open>newZoom\<close>
  equals the current \<open>zoomTarget\<close> the handler returns at once and changes nothing.
\<close>

theorem wheel_zoom_keeps_world_point:
  "(let newZoom = clamp (zoom v * exp (- deltaY * ZOOM_SENSITIVITY)) ZOOM_MIN ZOOM_MAX;
        v' = onWheel canvasX canvasY deltaY v
    in (newZoom \<noteq> zoomTarget v \<longrightarrow>
          zoomTarget v' = newZoom
        \<and> (canvasX - panTargetX v') / zoomTarget v' = (canvasX - panX v) / zoom v
        \<and> (canvasY - panTargetY v') / zoomTarget v' = (canvasY - panY v) / zoom v
        \<and> panX v' = panX v \<and> panY v' = panY v \<and> zoom v' = zoom v)
     \<and> (newZoom = zoomTarget v \<longrightarrow> v' = v))"
proof -
  let ?nz = "clamp (zoom v * exp (- deltaY * ZOOM_SENSITIVITY)) ZOOM_MIN ZOOM_MAX"
  have "ZOOM_MIN \<le> ?nz" using clamp_range [OF zoom_consts(1)] by blast
  with zoom_consts(2) have nz: "?nz \<noteq> 0" by simp
  show ?thesis
    unfolding Let_def using nz by (simp add: onWheel_def Let_def)
qed

theorem wheel_zoom_keeps_world_point_witness:
  "clamp (zoom steady * exp (- (- 10000) * ZOOM_SENSITIVITY)) ZOOM_MIN ZOOM_MAX = 5 / 2
   \<and> 5 / 2 \<noteq> zoomTarget steady
   \<and> zoomTarget (onWheel 100 120 (- 10000) steady) = 5 / 2
   \<and> panTargetX (onWheel 100 120 (- 10000) steady) = - 150
   \<and> panTargetY (onWheel 100 120 (- 10000) steady) = - 130
   \<and> (100 - panTargetX (onWheel 100 120 (- 10000) steady))
         / zoomTarget (onWheel 100 120 (- 10000) steady) = (100 - panX steady) / zoom steady
   \<and> (120 - panTargetY (onWheel 100 120 (- 10000) steady))
         / zoomTarget (onWheel 100 120 (- 10000) steady) = (120 - panY steady) / zoom steady"
proof -
  have "1 + 15 \<le> exp (15 :: real)" by (rule exp_ge_add_one_self)
  then have big: "5 / 2 \<le> exp (15 :: real)" by simp
  have nz: "clamp (zoom steady * exp (- (- 10000) * ZOOM_SENSITIVITY)) ZOOM_MIN ZOOM_MAX = 5 / 2"
    using big by (simp add: steady_fields clamp_def ZOOM_MIN_def ZOOM_MAX_def ZOOM_SENSITIVITY_def)
  note t = steady_fields
  have targets: "panTargetX (onWheel 100 120 (- 10000) steady) = - 150"
    "panTargetY (onWheel 100 120 (- 10000) steady) = - 130"
    using nz t by (simp_all add: onWheel_def Let_def)
  from wheel_zoom_keeps_world_point [of steady "- 10000" 100 120]
  show ?thesis unfolding Let_def nz using t targets by simp
qed

text \<open>
  Claim C6 as stated says that every wheel event sets the pan targets so that the world
  point under the cursor is kept.  In \<open>midPan\<close> a pan animation is under way
  (\<open>panTargetX\<close> is 100, \<open>panX\<close> is 0) and a wheel event with \<open>deltaY = 0\<close> computes a
  \<open>newZoom\<close> equal to \<open>zoomTarget\<close>: the handler returns through its guard, the targets
  stay, and the two world coordinates differ (-100 and 0).
\<close>

theorem wheel_sets_pan_targets_counterexample:
  "panX midPan = 0 \<and> panTargetX midPan = 100 \<and> zoom midPan = 1 \<and> zoomTarget midPan = 1
   \<and> clamp (zoom midPan * exp (- 0 * ZOOM_SENSITIVITY)) ZOOM_MIN ZOOM_MAX = zoomTarget midPan
   \<and> onWheel 0 0 0 midPan = midPan
   \<and> (0 - panTargetX (onWheel 0 0 0 midPan)) / zoomTarget (onWheel 0 0 0 midPan) = - 100
   \<and> (0 - panX midPan) / zoom midPan = 0"
proof -
  have g: "clamp (zoom midPan * exp (- 0 * ZOOM_SENSITIVITY)) ZOOM_MIN ZOOM_MAX = zoomTarget midPan"
    by (simp add: midPan_fields clamp_def ZOOM_MIN_def ZOOM_MAX_def)
  then have same: "onWheel 0 0 0 midPan = midPan" by (simp add: onWheel_def Let_def)
  show ?thesis unfolding same using g by (simp add: midPan_fields)
qed

end
